theory Spec2Isabelle
  imports Complex_Main
begin

section \<open>The record store (collaborator of dbjson.c)\<close>

text \<open>
  Modelled from the spec: the record store (dbdata.c, dbschema.c and dbutil.c are not part
  of the sources at hand). The spec lists the surface that dbjson.c consumes: create-array,
  create-object, create-kvpair, set-field, encode-int/float/string, encode-record-handle,
  decode-record/decode-string, get-field, get-record-length, get-encoded-type and the
  shape predicates. An encoded value (C type \<open>gint\<close>) is a datatype that carries what it
  encodes; a record pointer is the index of the record in the store, \<open>NULL\<close> is \<open>None\<close>.
  The spec says that the store may refuse a request (capacity exhaustion): the store
  carries a schedule of refusals, one answer per fallible request, consumed in order
  (\<open>True\<close> refuses; an empty schedule never refuses).
\<close>

datatype gint = WG_ILLEGAL | NullData | IntData int | DoubleData real | StrData string
  | RecData nat

datatype wg_type = WG_NULLTYPE | WG_RECORDTYPE | WG_INTTYPE | WG_DOUBLETYPE | WG_STRTYPE
  | WG_ILLEGALTYPE

record wg_record =
  meta_array :: bool
  meta_object :: bool
  meta_doc :: bool
  meta_param :: bool
  rfields :: "gint list"

record database =
  records :: "wg_record list"
  refusals :: "bool list"

definition NUL :: char where
  "NUL = CHR 0x00"

text \<open>The characters of a C string: everything before the first NUL byte.\<close>

definition c_str :: "string \<Rightarrow> string" where
  "c_str s = takeWhile (\<lambda>c. c \<noteq> NUL) s"

definition refused :: "database \<Rightarrow> bool \<times> database" where
  "refused d = (case refusals d of [] \<Rightarrow> (False, d)
     | b # bs \<Rightarrow> (b, d\<lparr>refusals := bs\<rparr>))"

definition new_record :: "database \<Rightarrow> wg_record \<Rightarrow> nat option \<times> database" where
  "new_record d r = (case refused d of
       (True, d') \<Rightarrow> (None, d')
     | (False, d') \<Rightarrow> (Some (length (records d')), d'\<lparr>records := records d' @ [r]\<rparr>))"

definition wg_create_array :: "database \<Rightarrow> int \<Rightarrow> bool \<Rightarrow> bool \<Rightarrow> nat option \<times> database" where
  "wg_create_array d reclen isdocument isparam =
     new_record d \<lparr>meta_array = True, meta_object = False, meta_doc = isdocument,
       meta_param = isparam, rfields = replicate (nat reclen) NullData\<rparr>"

definition wg_create_object :: "database \<Rightarrow> int \<Rightarrow> bool \<Rightarrow> bool \<Rightarrow> nat option \<times> database" where
  "wg_create_object d reclen isdocument isparam =
     new_record d \<lparr>meta_array = False, meta_object = True, meta_doc = isdocument,
       meta_param = isparam, rfields = replicate (nat reclen) NullData\<rparr>"

definition WG_SCHEMA_KEY_OFFSET :: int where
  "WG_SCHEMA_KEY_OFFSET = 0"

definition WG_SCHEMA_VALUE_OFFSET :: int where
  "WG_SCHEMA_VALUE_OFFSET = 1"

definition wg_create_kvpair :: "database \<Rightarrow> gint \<Rightarrow> gint \<Rightarrow> bool \<Rightarrow> nat option \<times> database" where
  "wg_create_kvpair d key val isparam =
     new_record d \<lparr>meta_array = False, meta_object = False, meta_doc = False,
       meta_param = isparam, rfields = [key, val]\<rparr>"

text \<open>\<open>wg_set_field\<close> answers 0 when the field was written, and a negative code otherwise.\<close>

definition wg_set_field :: "database \<Rightarrow> nat \<Rightarrow> int \<Rightarrow> gint \<Rightarrow> int \<times> database" where
  "wg_set_field d rec i v =
     (if rec \<ge> length (records d) then (-1, d)
      else if i < 0 \<or> i \<ge> int (length (rfields (records d ! rec))) then (-2, d)
      else case refused d of
          (True, d') \<Rightarrow> (-3, d')
        | (False, d') \<Rightarrow>
            (0, d'\<lparr>records := (records d')[rec :=
               (records d' ! rec)\<lparr>rfields := (rfields (records d' ! rec))[nat i := v]\<rparr>]\<rparr>))"

definition wg_encode_int :: "database \<Rightarrow> int \<Rightarrow> gint \<times> database" where
  "wg_encode_int d i = (case refused d of (True, d') \<Rightarrow> (WG_ILLEGAL, d')
     | (False, d') \<Rightarrow> (IntData i, d'))"

definition wg_encode_double :: "database \<Rightarrow> real \<Rightarrow> gint \<times> database" where
  "wg_encode_double d x = (case refused d of (True, d') \<Rightarrow> (WG_ILLEGAL, d')
     | (False, d') \<Rightarrow> (DoubleData x, d'))"

definition wg_encode_str :: "database \<Rightarrow> string \<Rightarrow> gint \<times> database" where
  "wg_encode_str d s = (case refused d of (True, d') \<Rightarrow> (WG_ILLEGAL, d')
     | (False, d') \<Rightarrow> (StrData (c_str s), d'))"

definition wg_encode_record :: "database \<Rightarrow> nat \<Rightarrow> gint" where
  "wg_encode_record d rec = RecData rec"

definition wg_get_encoded_type :: "database \<Rightarrow> gint \<Rightarrow> wg_type" where
  "wg_get_encoded_type d enc = (case enc of
       WG_ILLEGAL \<Rightarrow> WG_ILLEGALTYPE
     | NullData \<Rightarrow> WG_NULLTYPE
     | IntData i \<Rightarrow> WG_INTTYPE
     | DoubleData x \<Rightarrow> WG_DOUBLETYPE
     | StrData s \<Rightarrow> WG_STRTYPE
     | RecData r \<Rightarrow> WG_RECORDTYPE)"

text \<open>Decoding a value of another type, or reading a field that does not exist, is an
  error in the store; here it answers \<open>None\<close>.\<close>

definition wg_decode_record :: "database \<Rightarrow> gint \<Rightarrow> nat option" where
  "wg_decode_record d enc = (case enc of RecData r \<Rightarrow> Some r | _ \<Rightarrow> None)"

definition wg_decode_str :: "database \<Rightarrow> gint \<Rightarrow> string option" where
  "wg_decode_str d enc = (case enc of StrData s \<Rightarrow> Some s | _ \<Rightarrow> None)"

definition wg_get_record_len :: "database \<Rightarrow> nat \<Rightarrow> int" where
  "wg_get_record_len d rec =
     (if rec < length (records d) then int (length (rfields (records d ! rec))) else -1)"

definition wg_get_field :: "database \<Rightarrow> nat \<Rightarrow> int \<Rightarrow> gint" where
  "wg_get_field d rec i =
     (if rec < length (records d) \<and> 0 \<le> i \<and> i < int (length (rfields (records d ! rec)))
      then rfields (records d ! rec) ! nat i else WG_ILLEGAL)"

definition is_schema_array :: "database \<Rightarrow> nat \<Rightarrow> bool" where
  "is_schema_array d rec = (rec < length (records d) \<and> meta_array (records d ! rec))"

definition is_schema_object :: "database \<Rightarrow> nat \<Rightarrow> bool" where
  "is_schema_object d rec = (rec < length (records d) \<and> meta_object (records d ! rec))"

definition is_schema_document :: "database \<Rightarrow> nat \<Rightarrow> bool" where
  "is_schema_document d rec = (rec < length (records d) \<and> meta_doc (records d ! rec))"

section \<open>The parse stack of dbjson.c\<close>

text \<open>\<open>MAX_DEPTH\<close> as the source defines it without \<open>USE_BACKLINKING\<close>.\<close>

definition MAX_DEPTH :: int where
  "MAX_DEPTH = 99"

datatype stack_entry_t = ARRAY | OBJECT

text \<open>
  A \<open>stack_entry\<close>. The list from \<open>head\<close> to \<open>tail\<close> is \<open>se_elems\<close>; \<open>se_last_key\<close> is the
  80 byte buffer \<open>last_key\<close>.
\<close>

record stack_entry =
  se_type :: stack_entry_t
  se_elems :: "gint list"
  se_last_key :: string
  se_size :: int

text \<open>
  The \<open>parser_context\<close>. \<open>stack\<close> is the memory at \<open>ctx->stack\<close>, indexed as C indexes it:
  the array proper is the indices from 0 below \<open>MAX_DEPTH\<close>, and the model never hides a
  write outside of it. \<open>document\<close> is the slot \<open>*document\<close> of the caller. \<open>heap\<close> is not a
  field of the C struct: it holds the answers of \<open>malloc\<close> to the requests still to come
  (\<open>True\<close>: the allocation fails; empty: it never fails).
\<close>

record parser_context =
  state :: int
  stack :: "int \<Rightarrow> stack_entry"
  stack_ptr :: int
  db :: database
  isparam :: bool
  document :: "nat option"
  heap :: "bool list"

definition push :: "parser_context \<Rightarrow> stack_entry_t \<Rightarrow> bool \<times> parser_context" where
  "push ctx t =
     (let ctx1 = ctx\<lparr>stack_ptr := stack_ptr ctx + 1\<rparr> in
      if stack_ptr ctx1 \<ge> MAX_DEPTH then (False, ctx1)
      else
        let p = stack_ptr ctx1;
            e = (stack ctx1 p)\<lparr>se_size := 0, se_type := t, se_elems := []\<rparr>
        in (True, ctx1\<lparr>stack := (stack ctx1)(p := e)\<rparr>))"

definition malloc :: "parser_context \<Rightarrow> bool \<times> parser_context" where
  "malloc ctx = (case heap ctx of [] \<Rightarrow> (True, ctx)
     | b # bs \<Rightarrow> (\<not> b, ctx\<lparr>heap := bs\<rparr>))"

definition add_elem :: "parser_context \<Rightarrow> gint \<Rightarrow> bool \<times> parser_context" where
  "add_elem ctx enc =
     (if stack_ptr ctx < 0 \<or> stack_ptr ctx \<ge> MAX_DEPTH then (False, ctx)
      else case malloc ctx of
          (False, ctx1) \<Rightarrow> (False, ctx1)
        | (True, ctx1) \<Rightarrow>
            let p = stack_ptr ctx1; e = stack ctx1 p;
                e' = e\<lparr>se_elems := se_elems e @ [enc], se_size := se_size e + 1\<rparr>
            in (True, ctx1\<lparr>stack := (stack ctx1)(p := e')\<rparr>))"

text \<open>\<open>strncpy(dst, src, n)\<close> writes exactly \<open>n\<close> bytes: the string, then NUL bytes.\<close>

definition strncpy :: "string \<Rightarrow> nat \<Rightarrow> string" where
  "strncpy src n = take n (c_str src @ replicate n NUL)"

definition add_key :: "parser_context \<Rightarrow> string \<Rightarrow> bool \<times> parser_context" where
  "add_key ctx key =
     (if stack_ptr ctx < 0 \<or> stack_ptr ctx \<ge> MAX_DEPTH then (False, ctx)
      else
        let p = stack_ptr ctx; e = stack ctx p;
            e' = e\<lparr>se_last_key := (strncpy key 80)[79 := NUL]\<rparr>
        in (True, ctx\<lparr>stack := (stack ctx)(p := e')\<rparr>))"

definition add_literal :: "parser_context \<Rightarrow> gint \<Rightarrow> bool \<times> parser_context" where
  "add_literal ctx val =
     (if stack_ptr ctx < 0 \<or> stack_ptr ctx \<ge> MAX_DEPTH then (False, ctx)
      else
        let e = stack ctx (stack_ptr ctx) in
        if se_type e = ARRAY then add_elem ctx val
        else
          (case wg_encode_str (db ctx) (se_last_key e) of (key, d1) \<Rightarrow>
             (if key = WG_ILLEGAL then (False, ctx\<lparr>db := d1\<rparr>)
              else
                (case wg_create_kvpair d1 key val (isparam ctx) of
                   (None, d2) \<Rightarrow> (False, ctx\<lparr>db := d2\<rparr>)
                 | (Some rec, d2) \<Rightarrow>
                     add_elem (ctx\<lparr>db := d2\<rparr>) (wg_encode_record d2 rec)))))"

text \<open>The loop of \<open>pop\<close> that writes the elements into the fields of the new record.\<close>

fun set_fields :: "database \<Rightarrow> nat \<Rightarrow> int \<Rightarrow> gint list \<Rightarrow> bool \<times> database" where
  "set_fields d rec i [] = (True, d)"
| "set_fields d rec i (enc # rest) =
     (case wg_set_field d rec i enc of (rc, d') \<Rightarrow>
        if rc \<noteq> 0 then (False, d') else set_fields d' rec (i + 1) rest)"

definition pop :: "parser_context \<Rightarrow> bool \<times> parser_context" where
  "pop ctx =
     (if stack_ptr ctx < 0 then (False, ctx)
      else
        let p = stack_ptr ctx; e = stack ctx p;
            ctx1 = ctx\<lparr>stack_ptr := p - 1\<rparr>;
            istoplevel = (stack_ptr ctx1 < 0);
            (rec, d1) = (if se_type e = ARRAY
               then wg_create_array (db ctx1) (se_size e) istoplevel (isparam ctx1)
               else wg_create_object (db ctx1) (se_size e) istoplevel (isparam ctx1));
            (ret, ctx2) = (case rec of
                 Some r \<Rightarrow>
                   (case set_fields d1 r 0 (se_elems e) of (ok, d2) \<Rightarrow>
                      (ok, if istoplevel then ctx1\<lparr>db := d2, document := Some r\<rparr>
                           else ctx1\<lparr>db := d2\<rparr>))
               | None \<Rightarrow> (False, ctx1\<lparr>db := d1\<rparr>));
            ctx3 = ctx2\<lparr>stack := (stack ctx2)(p := e\<lparr>se_elems := [], se_size := 0\<rparr>)\<rparr>
        in case rec of
             Some r \<Rightarrow>
               if \<not> istoplevel \<and> ret
               then add_literal ctx3 (wg_encode_record (db ctx3) r)
               else (ret, ctx3)
           | None \<Rightarrow> (ret, ctx3))"

section \<open>The event consumer\<close>

text \<open>
  Modelled from the spec: the event types and the value of an event (JSON_parser.h is not
  part of the sources at hand). The union \<open>vu\<close> of a \<open>JSON_value\<close> is a record of its
  members.
\<close>

datatype JSON_type = JSON_T_NONE | JSON_T_ARRAY_BEGIN | JSON_T_ARRAY_END
  | JSON_T_OBJECT_BEGIN | JSON_T_OBJECT_END | JSON_T_INTEGER | JSON_T_FLOAT | JSON_T_NULL
  | JSON_T_TRUE | JSON_T_FALSE | JSON_T_STRING | JSON_T_KEY | JSON_T_MAX

record JSON_value =
  integer_value :: int
  float_value :: real
  str_value :: string

definition parse_json_cb :: "parser_context \<Rightarrow> JSON_type \<Rightarrow> JSON_value \<Rightarrow> bool \<times> parser_context" where
  "parse_json_cb ctx type val =
     (case type of
        JSON_T_ARRAY_BEGIN \<Rightarrow> push ctx ARRAY
      | JSON_T_ARRAY_END \<Rightarrow> pop ctx
      | JSON_T_OBJECT_BEGIN \<Rightarrow> push ctx OBJECT
      | JSON_T_OBJECT_END \<Rightarrow> pop ctx
      | JSON_T_INTEGER \<Rightarrow>
          (case wg_encode_int (db ctx) (integer_value val) of (v, d1) \<Rightarrow>
             if v = WG_ILLEGAL then (False, ctx\<lparr>db := d1\<rparr>)
             else add_literal (ctx\<lparr>db := d1\<rparr>) v)
      | JSON_T_FLOAT \<Rightarrow>
          (case wg_encode_double (db ctx) (float_value val) of (v, d1) \<Rightarrow>
             if v = WG_ILLEGAL then (False, ctx\<lparr>db := d1\<rparr>)
             else add_literal (ctx\<lparr>db := d1\<rparr>) v)
      | JSON_T_KEY \<Rightarrow> add_key ctx (str_value val)
      | JSON_T_STRING \<Rightarrow>
          (case wg_encode_str (db ctx) (str_value val) of (v, d1) \<Rightarrow>
             if v = WG_ILLEGAL then (False, ctx\<lparr>db := d1\<rparr>)
             else add_literal (ctx\<lparr>db := d1\<rparr>) v)
      | _ \<Rightarrow> (True, ctx))"

section \<open>The tokenizer (collaborator of dbjson.c)\<close>

text \<open>
  Modelled from the spec: the interface of the tokenizer (JSON_parser.c is not part of the
  sources at hand). The tokenizer is fed one byte at a time, as the \<open>int\<close> that
  \<open>run_json_parser\<close> passes for it; for each byte it reports zero or more events to the
  callback, in order, and answers whether it accepts the byte. \<open>parser_char\<close> gives the
  events of a byte and the next tokenizer state (\<open>None\<close>: the byte is rejected);
  \<open>new_parser\<close> takes \<open>config.depth\<close> and \<open>config.allow_comments\<close>. A callback that fails
  makes the tokenizer reject the byte at once.
\<close>

type_synonym event = "JSON_type \<times> JSON_value"

type_synonym JSON_parser_callback =
  "parser_context \<Rightarrow> JSON_type \<Rightarrow> JSON_value \<Rightarrow> bool \<times> parser_context"

record 'j JSON_parser =
  new_parser :: "int \<Rightarrow> bool \<Rightarrow> 'j"
  parser_char :: "'j \<Rightarrow> int \<Rightarrow> event list \<times> 'j option"
  parser_done :: "'j \<Rightarrow> bool"

fun call_back :: "JSON_parser_callback \<Rightarrow> parser_context \<Rightarrow> event list \<Rightarrow> bool \<times> parser_context" where
  "call_back cb ctx [] = (True, ctx)"
| "call_back cb ctx (ev # evs) =
     (case cb ctx (fst ev) (snd ev) of
        (False, ctx') \<Rightarrow> (False, ctx')
      | (True, ctx') \<Rightarrow> call_back cb ctx' evs)"

definition JSON_parser_char ::
  "'j JSON_parser \<Rightarrow> JSON_parser_callback \<Rightarrow> 'j \<Rightarrow> parser_context \<Rightarrow> int \<Rightarrow> 'j option \<times> parser_context" where
  "JSON_parser_char tok cb jc ctx next_char =
     (case parser_char tok jc next_char of (evs, r) \<Rightarrow>
        (case call_back cb ctx evs of
           (False, ctx') \<Rightarrow> (None, ctx')
         | (True, ctx') \<Rightarrow> (r, ctx')))"

section \<open>The drivers\<close>

text \<open>Decimal text of a number, as \<open>%d\<close> prints it.\<close>

definition digit_char :: "nat \<Rightarrow> char" where
  "digit_char n = ''0123456789'' ! n"

function dec_nat :: "nat \<Rightarrow> string" where
  "dec_nat n = (if n < 10 then [digit_char n] else dec_nat (n div 10) @ [digit_char (n mod 10)])"
  by pat_completeness auto
termination
  by (relation "measure id") auto

definition dec_int :: "int \<Rightarrow> string" where
  "dec_int i = (if i < 0 then CHR ''-'' # dec_nat (nat (- i)) else dec_nat (nat i))"

text \<open>The error reporters answer -1 and write one line to the diagnostics channel; the
  model returns the line.\<close>

definition show_json_error :: "string \<Rightarrow> int \<times> string" where
  "show_json_error errmsg = (-1, ''wg json I/O error: '' @ errmsg @ ''.'' @ [CHR 0x0A])"

definition show_json_error_byte :: "string \<Rightarrow> int \<Rightarrow> int \<times> string" where
  "show_json_error_byte errmsg byte =
     (-1, ''wg json I/O error: '' @ errmsg @ '' (byte='' @ dec_int byte @ '')'' @ [CHR 0x0A])"

text \<open>
  What C leaves to the environment of a parse: the answers of \<open>malloc\<close>, the contents
  of the local \<open>ctx.stack\<close>, which \<open>run_json_parser\<close> does not initialise, and whether the
  type \<open>char\<close> of the buffer is signed.
\<close>

record environment =
  malloc_answers :: "bool list"
  stack_memory :: "int \<Rightarrow> stack_entry"
  char_signed :: bool

text \<open>The assignment \<open>next_char = *iptr++\<close>, from a \<open>char\<close> to an \<open>int\<close>: where \<open>char\<close> is
  signed, a byte from 128 on is read as a negative number.\<close>

definition next_char_of :: "bool \<Rightarrow> char \<Rightarrow> int" where
  "next_char_of sg c =
     (if sg \<and> 128 \<le> (of_char c :: int) then of_char c - 256 else of_char c)"

text \<open>The loop \<open>while((next_char = *iptr++))\<close>: it ends at the NUL byte of the buffer
  (the end of the list stands for it as well) or at the first byte that is rejected. Each
  byte goes to the tokenizer as the \<open>int\<close> that the assignment makes of it.\<close>

fun feed ::
  "'j JSON_parser \<Rightarrow> JSON_parser_callback \<Rightarrow> bool \<Rightarrow> 'j \<Rightarrow> parser_context \<Rightarrow> int \<Rightarrow> string
     \<Rightarrow> 'j option \<times> parser_context \<times> int" where
  "feed tok cb sg jc ctx count [] = (Some jc, ctx, count)"
| "feed tok cb sg jc ctx count (c # iptr) =
     (if next_char_of sg c = 0 then (Some jc, ctx, count)
      else case JSON_parser_char tok cb jc ctx (next_char_of sg c) of
          (None, ctx') \<Rightarrow> (None, ctx', count)
        | (Some jc', ctx') \<Rightarrow> feed tok cb sg jc' ctx' (count + 1) iptr)"

text \<open>The block "setup context" of \<open>run_json_parser\<close>.\<close>

definition setup_context :: "environment \<Rightarrow> database \<Rightarrow> bool \<Rightarrow> nat option \<Rightarrow> parser_context" where
  "setup_context env d isparam' document' =
     \<lparr>state = 0, stack = stack_memory env, stack_ptr = -1, db = d,
      isparam = isparam', document = document', heap = malloc_answers env\<rparr>"

text \<open>\<open>run_json_parser\<close> answers the result code, the diagnostics, the store and the
  slot \<open>*document\<close> as the parse leaves them.\<close>

definition run_json_parser ::
  "'j JSON_parser \<Rightarrow> environment \<Rightarrow> database \<Rightarrow> string \<Rightarrow> JSON_parser_callback \<Rightarrow> bool
     \<Rightarrow> nat option \<Rightarrow> int \<times> string list \<times> database \<times> nat option" where
  "run_json_parser tok env d buf cb isparam' document' =
     (let ctx = setup_context env d isparam' document';
          jc = new_parser tok (MAX_DEPTH - 1) True
      in case feed tok cb (char_signed env) jc ctx 0 buf of
          (None, ctx', count) \<Rightarrow>
            (-2, [snd (show_json_error_byte ''JSON parsing failed'' count)], db ctx', document ctx')
        | (Some jc', ctx', count) \<Rightarrow>
            if \<not> parser_done tok jc'
            then (-2, [snd (show_json_error ''JSON parsing failed'')], db ctx', document ctx')
            else (0, [], db ctx', document ctx'))"

definition wg_parse_json_document ::
  "'j JSON_parser \<Rightarrow> environment \<Rightarrow> database \<Rightarrow> string \<Rightarrow> int \<times> string list \<times> database \<times> nat option" where
  "wg_parse_json_document tok env d buf = run_json_parser tok env d buf parse_json_cb False None"

definition wg_parse_json_param ::
  "'j JSON_parser \<Rightarrow> environment \<Rightarrow> database \<Rightarrow> string \<Rightarrow> nat option
     \<Rightarrow> int \<times> string list \<times> database \<times> nat option" where
  "wg_parse_json_param tok env d buf document' =
     run_json_parser tok env d buf parse_json_cb True document'"

section \<open>The pretty printer\<close>

text \<open>
  The stream \<open>f\<close> is the text written to it so far. A printing function answers its
  return code, the stream and the diagnostics it wrote. The recursion of
  \<open>pretty_print_json\<close> follows the record graph and need not end on a graph with a cycle:
  the first argument after the formatter bounds its depth, and \<open>None\<close> says that the
  bound was reached (or that a value could not be decoded at all). The scalar-to-text
  conversion of the store, \<open>wg_snprint_value\<close>, is the parameter \<open>snp\<close>.
\<close>

definition OUT_INDENT :: "int \<Rightarrow> string" where
  "OUT_INDENT x = concat (replicate (nat x) ''  '')"

fun for_fields ::
  "(int \<Rightarrow> string \<Rightarrow> (int \<times> string \<times> string list) option) \<Rightarrow> int list \<Rightarrow> string
     \<Rightarrow> (int \<times> string \<times> string list) option" where
  "for_fields body [] f = Some (0, f, [])"
| "for_fields body (i # is) f =
     (case body i f of
        None \<Rightarrow> None
      | Some (rc, f', err) \<Rightarrow> if rc \<noteq> 0 then Some (rc, f', err) else for_fields body is f')"

lemma for_fields_cong [fundef_cong]:
  "(\<And>i f. i \<in> set is \<Longrightarrow> body i f = body' i f) \<Longrightarrow> is = is' \<Longrightarrow> f = f'
     \<Longrightarrow> for_fields body is f = for_fields body' is' f'"
proof (induction "is" arbitrary: is' f f')
  case Nil
  then show ?case by simp
next
  case (Cons i "is")
  then show ?case by (auto split: option.splits)
qed

definition comma_text :: "int \<Rightarrow> string" where
  "comma_text comma = (if comma \<noteq> 0 then '','' else [])"

definition newline_text :: "int \<Rightarrow> string" where
  "newline_text newline = (if newline \<noteq> 0 then [CHR 0x0A] else [])"

definition quoted :: "string \<Rightarrow> string" where
  "quoted s = [CHR 0x22] @ s @ [CHR 0x22]"

fun pretty_print_json ::
  "(database \<Rightarrow> gint \<Rightarrow> string) \<Rightarrow> nat \<Rightarrow> database \<Rightarrow> string \<Rightarrow> nat \<Rightarrow> int \<Rightarrow> int \<Rightarrow> int
     \<Rightarrow> (int \<times> string \<times> string list) option" where
  "pretty_print_json snp 0 d f rec indent comma newline = None"
| "pretty_print_json snp (Suc n) d f rec indent comma newline =
     (if is_schema_object d rec then
        (case for_fields
           (\<lambda>i f'.
              let enc = wg_get_field d rec i in
              if wg_get_encoded_type d enc \<noteq> WG_RECORDTYPE
              then Some (fst (show_json_error ''Object had an element of invalid type''), f',
                     [snd (show_json_error ''Object had an element of invalid type'')])
              else
                (case wg_decode_record d enc of
                   None \<Rightarrow> None
                 | Some r \<Rightarrow>
                     (case pretty_print_json snp n d f' r (indent + 1) i 1 of
                        None \<Rightarrow> None
                      | Some (rc, f'', err) \<Rightarrow>
                          if rc \<noteq> 0 then Some (-1, f'', err) else Some (0, f'', err))))
           [0 .. wg_get_record_len d rec - 1]
           (f @ comma_text comma @ ''{'' @ [CHR 0x0A]) of
           None \<Rightarrow> None
         | Some (rc, f1, err) \<Rightarrow>
             if rc \<noteq> 0 then Some (rc, f1, err)
             else Some (0, f1 @ OUT_INDENT indent @ ''}'' @ newline_text newline, err))
      else if is_schema_array d rec then
        (case for_fields
           (\<lambda>i f'.
              let enc = wg_get_field d rec i; type = wg_get_encoded_type d enc in
              if type = WG_RECORDTYPE then
                (case wg_decode_record d enc of
                   None \<Rightarrow> None
                 | Some r \<Rightarrow>
                     (case pretty_print_json snp n d f' r indent i 0 of
                        None \<Rightarrow> None
                      | Some (rc, f'', err) \<Rightarrow>
                          if rc \<noteq> 0 then Some (-1, f'', err) else Some (0, f'', err)))
              else if type = WG_STRTYPE then
                (case wg_decode_str d enc of
                   None \<Rightarrow> None
                 | Some s \<Rightarrow> Some (0, f' @ comma_text i @ quoted s, []))
              else
                Some (0, f' @ comma_text i @ snp d enc, []))
           [0 .. wg_get_record_len d rec - 1]
           (f @ comma_text comma @ ''['') of
           None \<Rightarrow> None
         | Some (rc, f1, err) \<Rightarrow>
             if rc \<noteq> 0 then Some (rc, f1, err)
             else Some (0, f1 @ '']'' @ newline_text newline, err))
      else
        (let key = wg_get_field d rec WG_SCHEMA_KEY_OFFSET;
             val = wg_get_field d rec WG_SCHEMA_VALUE_OFFSET
         in
         if wg_get_encoded_type d key \<noteq> WG_STRTYPE
         then Some (fst (show_json_error ''Key is of invalid type''), f,
                [snd (show_json_error ''Key is of invalid type'')])
         else
           (case wg_decode_str d key of
              None \<Rightarrow> None
            | Some k \<Rightarrow>
                let f1 = f @ OUT_INDENT indent @ comma_text comma @ quoted k @ '': '';
                    valtype = wg_get_encoded_type d val
                in
                if valtype = WG_RECORDTYPE then
                  (case wg_decode_record d val of
                     None \<Rightarrow> None
                   | Some r \<Rightarrow>
                       (case pretty_print_json snp n d f1 r indent 0 1 of
                          None \<Rightarrow> None
                        | Some (rc, f2, err) \<Rightarrow>
                            if rc \<noteq> 0 then Some (-1, f2, err) else Some (0, f2, err)))
                else if valtype = WG_STRTYPE then
                  (case wg_decode_str d val of
                     None \<Rightarrow> None
                   | Some s \<Rightarrow> Some (0, f1 @ quoted s @ [CHR 0x0A], []))
                else Some (0, f1 @ snp d val @ [CHR 0x0A], []))))"

text \<open>\<open>wg_print_json_document\<close> returns nothing in C: the model answers the stream and
  the diagnostics.\<close>

definition wg_print_json_document ::
  "(database \<Rightarrow> gint \<Rightarrow> string) \<Rightarrow> nat \<Rightarrow> database \<Rightarrow> string \<Rightarrow> nat
     \<Rightarrow> (string \<times> string list) option" where
  "wg_print_json_document snp n d f document' =
     (if \<not> is_schema_document d document'
      then Some (f, [snd (show_json_error ''Given record is not a document'')])
      else map_option snd (pretty_print_json snp n d f document' 0 0 1))"

section \<open>A tokenizer for the examples\<close>

text \<open>
  Modelled from the spec: a tokenizer to run the drivers on text (JSON_parser.c is not part
  of the sources at hand). It is a byte-at-a-time state machine with a stack of open
  containers bounded by \<open>config.depth\<close>; it reports the events array-begin, array-end,
  object-begin, object-end, key, string, integer, float, true, false and null. It reads
  objects, arrays, strings with the two-character escapes, integers, numbers with a
  fraction, the three literal names, white space and, when allowed, comments; it leaves
  out \<open>\u\<close> escapes and exponents. The theorems that quantify over the tokenizer do not
  depend on it.
\<close>

datatype jmode = MODE_ARRAY | MODE_OBJECT

datatype jstate = GO | VA | AR | OB | KE | CO | OK
  | ST bool string | ES bool string
  | MI | IN bool nat | F0 bool nat | FR bool nat nat nat
  | LIT JSON_type string
  | C1 jstate | C2 jstate | C3 jstate

record jparser =
  jp_state :: jstate
  jp_modes :: "jmode list"
  jp_depth :: int
  jp_comments :: bool

definition no_value :: JSON_value where
  "no_value = \<lparr>integer_value = 0, float_value = 0, str_value = []\<rparr>"

definition integer_event :: "int \<Rightarrow> event" where
  "integer_event i = (JSON_T_INTEGER, no_value\<lparr>integer_value := i\<rparr>)"

definition double_event :: "real \<Rightarrow> event" where
  "double_event x = (JSON_T_FLOAT, no_value\<lparr>float_value := x\<rparr>)"

definition string_event :: "string \<Rightarrow> event" where
  "string_event s = (JSON_T_STRING, no_value\<lparr>str_value := s\<rparr>)"

definition key_event :: "string \<Rightarrow> event" where
  "key_event s = (JSON_T_KEY, no_value\<lparr>str_value := s\<rparr>)"

definition int_event :: "bool \<Rightarrow> nat \<Rightarrow> event" where
  "int_event neg n = integer_event (if neg then - int n else int n)"

definition float_event :: "bool \<Rightarrow> nat \<Rightarrow> nat \<Rightarrow> nat \<Rightarrow> event" where
  "float_event neg n f k =
     double_event ((if neg then -1 else 1) * (real n + real f / 10 ^ k))"

definition str_event :: "bool \<Rightarrow> string \<Rightarrow> event" where
  "str_event iskey s = (if iskey then key_event s else string_event s)"

definition is_ws :: "char \<Rightarrow> bool" where
  "is_ws c = (c = CHR '' '' \<or> c = CHR 0x0A \<or> c = CHR 0x09 \<or> c = CHR 0x0D)"

definition is_digit :: "char \<Rightarrow> bool" where
  "is_digit c = (c \<in> set ''0123456789'')"

definition digit_val :: "char \<Rightarrow> nat" where
  "digit_val c = of_char c - 48"

definition open_container :: "jparser \<Rightarrow> jmode \<Rightarrow> event list \<times> jparser option" where
  "open_container p m =
     (if 0 \<le> jp_depth p \<and> jp_depth p \<le> int (length (jp_modes p)) then ([], None)
      else ([(if m = MODE_ARRAY then JSON_T_ARRAY_BEGIN else JSON_T_OBJECT_BEGIN, no_value)],
            Some (p\<lparr>jp_state := (if m = MODE_ARRAY then AR else OB),
                    jp_modes := m # jp_modes p\<rparr>)))"

definition close_container :: "jparser \<Rightarrow> jmode \<Rightarrow> event list \<times> jparser option" where
  "close_container p m =
     (case jp_modes p of
        [] \<Rightarrow> ([], None)
      | m' # ms \<Rightarrow>
          if m' \<noteq> m then ([], None)
          else ([(if m = MODE_ARRAY then JSON_T_ARRAY_END else JSON_T_OBJECT_END, no_value)],
                Some (p\<lparr>jp_state := OK, jp_modes := ms\<rparr>)))"

definition start_comment :: "jparser \<Rightarrow> event list \<times> jparser option" where
  "start_comment p =
     (if jp_comments p then ([], Some (p\<lparr>jp_state := C1 (jp_state p)\<rparr>)) else ([], None))"

text \<open>A byte where a value may start.\<close>

definition start_value :: "jparser \<Rightarrow> char \<Rightarrow> event list \<times> jparser option" where
  "start_value p c =
     (if is_ws c then ([], Some p)
      else if c = CHR 0x22 then ([], Some (p\<lparr>jp_state := ST False []\<rparr>))
      else if c = CHR ''-'' then ([], Some (p\<lparr>jp_state := MI\<rparr>))
      else if is_digit c then ([], Some (p\<lparr>jp_state := IN False (digit_val c)\<rparr>))
      else if c = CHR ''['' then open_container p MODE_ARRAY
      else if c = CHR ''{'' then open_container p MODE_OBJECT
      else if c = CHR ''t'' then ([], Some (p\<lparr>jp_state := LIT JSON_T_TRUE ''rue''\<rparr>))
      else if c = CHR ''f'' then ([], Some (p\<lparr>jp_state := LIT JSON_T_FALSE ''alse''\<rparr>))
      else if c = CHR ''n'' then ([], Some (p\<lparr>jp_state := LIT JSON_T_NULL ''ull''\<rparr>))
      else if c = CHR ''/'' then start_comment p
      else ([], None))"

text \<open>A byte after a complete value.\<close>

definition after_value :: "jparser \<Rightarrow> char \<Rightarrow> event list \<times> jparser option" where
  "after_value p c =
     (if is_ws c then ([], Some (p\<lparr>jp_state := OK\<rparr>))
      else if c = CHR '','' then
        (case jp_modes p of
           [] \<Rightarrow> ([], None)
         | MODE_ARRAY # ms \<Rightarrow> ([], Some (p\<lparr>jp_state := VA\<rparr>))
         | MODE_OBJECT # ms \<Rightarrow> ([], Some (p\<lparr>jp_state := KE\<rparr>)))
      else if c = CHR '']'' then close_container p MODE_ARRAY
      else if c = CHR ''}'' then close_container p MODE_OBJECT
      else if c = CHR ''/'' then start_comment (p\<lparr>jp_state := OK\<rparr>)
      else ([], None))"

definition emit_then :: "event \<Rightarrow> event list \<times> jparser option \<Rightarrow> event list \<times> jparser option" where
  "emit_then ev r = (ev # fst r, snd r)"

definition unescape :: "char \<Rightarrow> char option" where
  "unescape c =
     (if c = CHR 0x22 \<or> c = CHR 0x5C \<or> c = CHR ''/'' then Some c
      else if c = CHR ''n'' then Some (CHR 0x0A)
      else if c = CHR ''t'' then Some (CHR 0x09)
      else if c = CHR ''r'' then Some (CHR 0x0D)
      else if c = CHR ''b'' then Some (CHR 0x08)
      else if c = CHR ''f'' then Some (CHR 0x0C)
      else None)"

definition json_char :: "jparser \<Rightarrow> char \<Rightarrow> event list \<times> jparser option" where
  "json_char p c =
     (case jp_state p of
        GO \<Rightarrow>
          if is_ws c then ([], Some p)
          else if c = CHR ''['' then open_container p MODE_ARRAY
          else if c = CHR ''{'' then open_container p MODE_OBJECT
          else if c = CHR ''/'' then start_comment p
          else ([], None)
      | VA \<Rightarrow> start_value p c
      | AR \<Rightarrow> if c = CHR '']'' then close_container p MODE_ARRAY else start_value p c
      | OB \<Rightarrow>
          if is_ws c then ([], Some p)
          else if c = CHR ''}'' then close_container p MODE_OBJECT
          else if c = CHR 0x22 then ([], Some (p\<lparr>jp_state := ST True []\<rparr>))
          else if c = CHR ''/'' then start_comment p
          else ([], None)
      | KE \<Rightarrow>
          if is_ws c then ([], Some p)
          else if c = CHR 0x22 then ([], Some (p\<lparr>jp_state := ST True []\<rparr>))
          else if c = CHR ''/'' then start_comment p
          else ([], None)
      | CO \<Rightarrow>
          if is_ws c then ([], Some p)
          else if c = CHR '':'' then ([], Some (p\<lparr>jp_state := VA\<rparr>))
          else if c = CHR ''/'' then start_comment p
          else ([], None)
      | OK \<Rightarrow> after_value p c
      | ST iskey s \<Rightarrow>
          if c = CHR 0x22
          then ([str_event iskey s], Some (p\<lparr>jp_state := (if iskey then CO else OK)\<rparr>))
          else if c = CHR 0x5C then ([], Some (p\<lparr>jp_state := ES iskey s\<rparr>))
          else if of_char c < (32 :: nat) then ([], None)
          else ([], Some (p\<lparr>jp_state := ST iskey (s @ [c])\<rparr>))
      | ES iskey s \<Rightarrow>
          (case unescape c of
             None \<Rightarrow> ([], None)
           | Some c' \<Rightarrow> ([], Some (p\<lparr>jp_state := ST iskey (s @ [c'])\<rparr>)))
      | MI \<Rightarrow>
          if is_digit c then ([], Some (p\<lparr>jp_state := IN True (digit_val c)\<rparr>))
          else ([], None)
      | IN neg n \<Rightarrow>
          if is_digit c then ([], Some (p\<lparr>jp_state := IN neg (10 * n + digit_val c)\<rparr>))
          else if c = CHR ''.'' then ([], Some (p\<lparr>jp_state := F0 neg n\<rparr>))
          else emit_then (int_event neg n) (after_value p c)
      | F0 neg n \<Rightarrow>
          if is_digit c then ([], Some (p\<lparr>jp_state := FR neg n (digit_val c) 1\<rparr>))
          else ([], None)
      | FR neg n f k \<Rightarrow>
          if is_digit c
          then ([], Some (p\<lparr>jp_state := FR neg n (10 * f + digit_val c) (k + 1)\<rparr>))
          else emit_then (float_event neg n f k) (after_value p c)
      | LIT t s \<Rightarrow>
          (case s of
             [] \<Rightarrow> ([], None)
           | x # xs \<Rightarrow>
               if c \<noteq> x then ([], None)
               else if xs = [] then ([(t, no_value)], Some (p\<lparr>jp_state := OK\<rparr>))
               else ([], Some (p\<lparr>jp_state := LIT t xs\<rparr>)))
      | C1 q \<Rightarrow> if c = CHR ''*'' then ([], Some (p\<lparr>jp_state := C2 q\<rparr>)) else ([], None)
      | C2 q \<Rightarrow>
          if c = CHR ''*'' then ([], Some (p\<lparr>jp_state := C3 q\<rparr>)) else ([], Some p)
      | C3 q \<Rightarrow>
          if c = CHR ''/'' then ([], Some (p\<lparr>jp_state := q\<rparr>))
          else if c = CHR ''*'' then ([], Some p)
          else ([], Some (p\<lparr>jp_state := C2 q\<rparr>)))"

text \<open>The byte as the driver passes it: a negative number is rejected, every other byte
  is read as the character of that code.\<close>

definition json_byte :: "jparser \<Rightarrow> int \<Rightarrow> event list \<times> jparser option" where
  "json_byte p next_char =
     (if next_char < 0 \<or> 255 < next_char then ([], None) else json_char p (char_of next_char))"

definition json_new :: "int \<Rightarrow> bool \<Rightarrow> jparser" where
  "json_new depth comments =
     \<lparr>jp_state = GO, jp_modes = [], jp_depth = depth, jp_comments = comments\<rparr>"

definition json_done :: "jparser \<Rightarrow> bool" where
  "json_done p = (jp_state p = OK \<and> jp_modes p = [])"

definition json_tokenizer :: "jparser JSON_parser" where
  "json_tokenizer = \<lparr>new_parser = json_new, parser_char = json_byte, parser_done = json_done\<rparr>"

text \<open>Modelled from the spec: the scalar-to-text conversion of the store, for the
  examples. It prints an integer in decimal; the other cases stand for texts that no
  theorem below looks at.\<close>

definition wg_snprint_value :: "database \<Rightarrow> gint \<Rightarrow> string" where
  "wg_snprint_value d enc = (case enc of
       IntData i \<Rightarrow> dec_int i
     | NullData \<Rightarrow> ''NULL''
     | StrData s \<Rightarrow> quoted s
     | _ \<Rightarrow> ''?'')"

section \<open>What the tokenizer alone says of a buffer\<close>

text \<open>
  The events that the tokenizer reports for a buffer when no callback stops it, and its
  state at the end; \<open>None\<close> when it rejects a byte. The flag says whether \<open>char\<close> is
  signed where the buffer is read. A buffer is syntactically accepted
  when no byte is rejected and \<open>JSON_parser_done\<close> holds at the end: this is the syntax
  check of the spec, taken apart from the callback.
\<close>

fun tokenize :: "'j JSON_parser \<Rightarrow> bool \<Rightarrow> 'j \<Rightarrow> string \<Rightarrow> (event list \<times> 'j) option" where
  "tokenize tok sg jc [] = Some ([], jc)"
| "tokenize tok sg jc (c # cs) =
     (if next_char_of sg c = 0 then Some ([], jc)
      else case parser_char tok jc (next_char_of sg c) of
          (evs, None) \<Rightarrow> None
        | (evs, Some jc') \<Rightarrow>
            (case tokenize tok sg jc' cs of
               None \<Rightarrow> None
             | Some (evs', jc'') \<Rightarrow> Some (evs @ evs', jc'')))"

definition token_events :: "'j JSON_parser \<Rightarrow> bool \<Rightarrow> string \<Rightarrow> event list option" where
  "token_events tok sg buf =
     (case tokenize tok sg (new_parser tok (MAX_DEPTH - 1) True) buf of
        None \<Rightarrow> None
      | Some (evs, jc) \<Rightarrow> if parser_done tok jc then Some evs else None)"

definition syntax_accepted :: "'j JSON_parser \<Rightarrow> bool \<Rightarrow> string \<Rightarrow> bool" where
  "syntax_accepted tok sg buf = (token_events tok sg buf \<noteq> None)"

section \<open>JSON values and the records that represent them\<close>

text \<open>
  A JSON value of the kinds that the event consumer handles: integer, float and string
  literals, arrays, and objects as lists of keys with values, in source order.
\<close>

datatype jv = JInt int | JFloat real | JStr string | JArr "jv list"
  | JObj "(string \<times> jv) list"

text \<open>The events that the tokenizer reports for a value, as the table of the event
  consumer in the spec lists them.\<close>

fun events :: "jv \<Rightarrow> event list" where
  "events (JInt i) = [integer_event i]"
| "events (JFloat x) = [double_event x]"
| "events (JStr s) = [string_event s]"
| "events (JArr vs) =
     (JSON_T_ARRAY_BEGIN, no_value) # concat (map events vs) @ [(JSON_T_ARRAY_END, no_value)]"
| "events (JObj kvs) =
     (JSON_T_OBJECT_BEGIN, no_value) # concat (map (\<lambda>kv. key_event (fst kv) # events (snd kv)) kvs)
       @ [(JSON_T_OBJECT_END, no_value)]"

text \<open>A value as the store can hold it: strings end at their first NUL byte, and keys
  are cut to 79 characters.\<close>

fun stored :: "jv \<Rightarrow> jv" where
  "stored (JInt i) = JInt i"
| "stored (JFloat x) = JFloat x"
| "stored (JStr s) = JStr (c_str s)"
| "stored (JArr vs) = JArr (map stored vs)"
| "stored (JObj kvs) = JObj (map (\<lambda>kv. (take 79 (c_str (fst kv)), stored (snd kv))) kvs)"

text \<open>
  \<open>repr d g v\<close>: in the store \<open>d\<close> the encoded value \<open>g\<close> decodes to the JSON value \<open>v\<close>.
  A literal decodes to itself; the handle of an array record decodes to the array of
  what its fields decode to, in order; the handle of an object record decodes to the
  object whose members are, in order, the key-value pairs that its fields are handles
  of. \<open>repr_pair d g (k, v)\<close>: \<open>g\<close> is the handle of a key-value-pair record whose key
  field decodes to the string \<open>k\<close> and whose value field decodes to \<open>v\<close>.
\<close>

inductive repr :: "database \<Rightarrow> gint \<Rightarrow> jv \<Rightarrow> bool"
  and repr_pair :: "database \<Rightarrow> gint \<Rightarrow> string \<times> jv \<Rightarrow> bool"
  for d :: database where
  repr_int: "repr d (IntData i) (JInt i)"
| repr_float: "repr d (DoubleData x) (JFloat x)"
| repr_str: "repr d (StrData s) (JStr s)"
| repr_arr: "r < length (records d) \<Longrightarrow> \<not> meta_object (records d ! r) \<Longrightarrow>
     meta_array (records d ! r) \<Longrightarrow>
     list_all2 (repr d) (rfields (records d ! r)) vs \<Longrightarrow> repr d (RecData r) (JArr vs)"
| repr_obj: "r < length (records d) \<Longrightarrow> meta_object (records d ! r) \<Longrightarrow>
     list_all2 (repr_pair d) (rfields (records d ! r)) kvs \<Longrightarrow> repr d (RecData r) (JObj kvs)"
| repr_kv: "p < length (records d) \<Longrightarrow> \<not> meta_object (records d ! p) \<Longrightarrow>
     \<not> meta_array (records d ! p) \<Longrightarrow> rfields (records d ! p) = [StrData k, g] \<Longrightarrow>
     repr d g v \<Longrightarrow> repr_pair d (RecData p) (k, v)"

section \<open>The text of a value\<close>

text \<open>
  The text that the pretty printer is to write for a value, with the parameters of
  \<open>pretty_print_json\<close>: the indent, the comma flag (the index of the value among its
  siblings) and the newline flag. Element \<open>i\<close> of an array is written with the comma flag
  \<open>i\<close> and no newline; member \<open>i\<close> of an object is written on a line of its own, the key
  with the comma flag \<open>i\<close>, the value with the newline. Floats are left out: their text
  is that of the C library.
\<close>

fun indexed_concat :: "(int \<Rightarrow> 'a \<Rightarrow> string) \<Rightarrow> int \<Rightarrow> 'a list \<Rightarrow> string" where
  "indexed_concat g i [] = []"
| "indexed_concat g i (x # xs) = g i x @ indexed_concat g (i + 1) xs"

lemma indexed_concat_cong [fundef_cong]:
  "(\<And>j x. x \<in> set xs \<Longrightarrow> g j x = g' j x) \<Longrightarrow> i = i' \<Longrightarrow> xs = xs'
     \<Longrightarrow> indexed_concat g i xs = indexed_concat g' i' xs'"
  by (induction xs arbitrary: i i' xs') auto

fun render :: "jv \<Rightarrow> int \<Rightarrow> int \<Rightarrow> int \<Rightarrow> string" where
  "render (JInt i) indent comma newline = comma_text comma @ dec_int i @ newline_text newline"
| "render (JFloat x) indent comma newline = comma_text comma @ newline_text newline"
| "render (JStr s) indent comma newline = comma_text comma @ quoted s @ newline_text newline"
| "render (JArr vs) indent comma newline =
     comma_text comma @ ''['' @ indexed_concat (\<lambda>i v. render v indent i 0) 0 vs @ '']''
       @ newline_text newline"
| "render (JObj kvs) indent comma newline =
     comma_text comma @ ''{'' @ [CHR 0x0A]
       @ indexed_concat (\<lambda>i kv. OUT_INDENT (indent + 1) @ comma_text i @ quoted (fst kv)
           @ '': '' @ render (snd kv) (indent + 1) 0 1) 0 kvs
       @ OUT_INDENT indent @ ''}'' @ newline_text newline"

text \<open>
  The values that the printed text gives back: integers, strings and keys made of
  the ASCII characters that JSON allows unescaped inside a string (no double quote, no
  backslash, no control character), keys of at most 79 characters, and no floats.
\<close>

definition plain_char :: "char \<Rightarrow> bool" where
  "plain_char c =
     (c \<noteq> CHR 0x22 \<and> c \<noteq> CHR 0x5C \<and> (32 :: nat) \<le> of_char c \<and> (of_char c :: nat) < 128)"

fun printable :: "jv \<Rightarrow> bool" where
  "printable (JInt i) = True"
| "printable (JFloat x) = False"
| "printable (JStr s) = list_all plain_char s"
| "printable (JArr vs) = list_all printable vs"
| "printable (JObj kvs) =
     list_all (\<lambda>kv. list_all plain_char (fst kv) \<and> length (fst kv) \<le> 79 \<and> printable (snd kv)) kvs"

text \<open>The number of containers nested in a value.\<close>

fun depth :: "jv \<Rightarrow> nat" where
  "depth (JInt i) = 0"
| "depth (JFloat x) = 0"
| "depth (JStr s) = 0"
| "depth (JArr vs) = Suc (foldr max (map depth vs) 0)"
| "depth (JObj kvs) = Suc (foldr max (map (\<lambda>kv. depth (snd kv)) kvs) 0)"

section \<open>Notions for the statements\<close>

text \<open>An event that opens a container.\<close>

definition is_begin :: "event \<Rightarrow> bool" where
  "is_begin ev = (fst ev = JSON_T_ARRAY_BEGIN \<or> fst ev = JSON_T_OBJECT_BEGIN)"

text \<open>The memory outside of the array \<open>stack[MAX_DEPTH]\<close> is the same in both contexts.\<close>

definition outside_kept :: "parser_context \<Rightarrow> parser_context \<Rightarrow> bool" where
  "outside_kept ctx ctx' = (\<forall>i. i < 0 \<or> MAX_DEPTH \<le> i \<longrightarrow> stack ctx' i = stack ctx i)"

text \<open>The literal values, and the containers.\<close>

fun is_literal :: "jv \<Rightarrow> bool" where
  "is_literal (JInt i) = True"
| "is_literal (JFloat x) = True"
| "is_literal (JStr s) = True"
| "is_literal (JArr vs) = False"
| "is_literal (JObj kvs) = False"

definition is_container :: "jv \<Rightarrow> bool" where
  "is_container v = (\<not> is_literal v)"

text \<open>The encoding of a literal: what \<open>wg_encode_int\<close>, \<open>wg_encode_double\<close> and
  \<open>wg_encode_str\<close> answer for it when the store accepts the request.\<close>

fun encoded :: "jv \<Rightarrow> gint" where
  "encoded (JInt i) = IntData i"
| "encoded (JFloat x) = DoubleData x"
| "encoded (JStr s) = StrData (c_str s)"
| "encoded (JArr vs) = WG_ILLEGAL"
| "encoded (JObj kvs) = WG_ILLEGAL"

text \<open>The store \<open>d'\<close> has the records of \<open>d\<close>, unchanged, and maybe more after them.\<close>

definition extends :: "database \<Rightarrow> database \<Rightarrow> bool" where
  "extends d d' = (\<exists>more. records d' = records d @ more)"

text \<open>What a frame receives as a child for the value \<open>v\<close>: in an array frame an encoded
  value that decodes to \<open>v\<close>, in an object frame the handle of a key-value pair of the
  pending key of the frame and \<open>v\<close>.\<close>

definition child_of :: "database \<Rightarrow> stack_entry \<Rightarrow> gint \<Rightarrow> jv \<Rightarrow> bool" where
  "child_of d e g v =
     (if se_type e = ARRAY then repr d g v else repr_pair d g (c_str (se_last_key e), v))"

text \<open>\<open>grown ctx ctx' v\<close>: from \<open>ctx\<close> to \<open>ctx'\<close> the top frame has received one child for
  the value \<open>v\<close>, the frames below it, the stack pointer, the document slot and the
  parameter flag are as they were, and the store has only been extended.\<close>

definition grown :: "parser_context \<Rightarrow> parser_context \<Rightarrow> jv \<Rightarrow> bool" where
  "grown ctx ctx' v =
     (stack_ptr ctx' = stack_ptr ctx \<and> document ctx' = document ctx \<and>
      isparam ctx' = isparam ctx \<and> extends (db ctx) (db ctx') \<and>
      (\<forall>i. i < stack_ptr ctx \<longrightarrow> stack ctx' i = stack ctx i) \<and>
      (\<exists>g. stack ctx' (stack_ptr ctx) = (stack ctx (stack_ptr ctx))
               \<lparr>se_elems := se_elems (stack ctx (stack_ptr ctx)) @ [g],
                se_size := se_size (stack ctx (stack_ptr ctx)) + 1\<rparr> \<and>
           child_of (db ctx') (stack ctx (stack_ptr ctx)) g v))"

text \<open>\<open>filled R ctx ctx' xs\<close>: from \<open>ctx\<close> to \<open>ctx'\<close> the top frame has received, in order,
  one child for each element of \<open>xs\<close> (related to it by \<open>R\<close> in the store of \<open>ctx'\<close>); its
  pending key may have changed; the rest is as for \<open>grown\<close>.\<close>

definition filled ::
  "(database \<Rightarrow> gint \<Rightarrow> 'a \<Rightarrow> bool) \<Rightarrow> parser_context \<Rightarrow> parser_context \<Rightarrow> 'a list \<Rightarrow> bool" where
  "filled R ctx ctx' xs =
     (stack_ptr ctx' = stack_ptr ctx \<and> document ctx' = document ctx \<and>
      isparam ctx' = isparam ctx \<and> extends (db ctx) (db ctx') \<and>
      (\<forall>i. i < stack_ptr ctx \<longrightarrow> stack ctx' i = stack ctx i) \<and>
      (\<exists>gs lk. stack ctx' (stack_ptr ctx) = (stack ctx (stack_ptr ctx))
               \<lparr>se_elems := se_elems (stack ctx (stack_ptr ctx)) @ gs,
                se_last_key := lk,
                se_size := se_size (stack ctx (stack_ptr ctx)) + int (length gs)\<rparr> \<and>
           list_all2 (R (db ctx')) gs xs))"

text \<open>Nothing is going to be refused: neither by the store nor by \<open>malloc\<close>.\<close>

definition calm :: "parser_context \<Rightarrow> bool" where
  "calm ctx = (refusals (db ctx) = [] \<and> heap ctx = [])"

text \<open>\<open>runs p xs evs p'\<close>: the tokenizer of the examples, in the state \<open>p\<close>, accepts every
  byte of the text \<open>xs\<close> (which has no NUL byte, and is read with an unsigned \<open>char\<close>),
  reports the events \<open>evs\<close> and is then in the state \<open>p'\<close>.\<close>

definition runs :: "jparser \<Rightarrow> string \<Rightarrow> event list \<Rightarrow> jparser \<Rightarrow> bool" where
  "runs p xs evs p' = (NUL \<notin> set xs \<and> tokenize json_tokenizer False p xs = Some (evs, p'))"

text \<open>The event that the tokenizer still owes in a state: a number is reported only when
  the byte after it is read.\<close>

fun pending :: "jstate \<Rightarrow> event list" where
  "pending (IN neg n) = [int_event neg n]"
| "pending s = []"

text \<open>The states of the tokenizer after a complete value.\<close>

fun after_a_value :: "jstate \<Rightarrow> bool" where
  "after_a_value OK = True"
| "after_a_value (IN neg n) = True"
| "after_a_value s = False"

text \<open>A text of ASCII characters: it is read the same whether \<open>char\<close> is signed or
  not.\<close>

definition seven_bit :: "string \<Rightarrow> bool" where
  "seven_bit xs = list_all (\<lambda>c. (of_char c :: nat) < 128) xs"

section \<open>Inputs for the examples\<close>

text \<open>Arrays nested in one another: \<open>nested n\<close> is the text of \<open>n + 1\<close> opening brackets
  and as many closing ones.\<close>

fun nested :: "nat \<Rightarrow> jv" where
  "nested 0 = JArr []"
| "nested (Suc n) = JArr [nested n]"

definition plain_entry :: stack_entry where
  "plain_entry = \<lparr>se_type = ARRAY, se_elems = [], se_last_key = [], se_size = 0\<rparr>"

definition plain_env :: environment where
  "plain_env = \<lparr>malloc_answers = [], stack_memory = (\<lambda>i. plain_entry), char_signed = True\<rparr>"

definition empty_db :: database where
  "empty_db = \<lparr>records = [], refusals = []\<rparr>"

text \<open>The context after the events of the text \<open>{"b":[2,3\<close>: an object frame with the
  pending key \<open>b\<close>, and on top of it an array frame with two children.\<close>

definition array_in_object :: parser_context where
  "array_in_object = snd (call_back parse_json_cb (setup_context plain_env empty_db False None)
     [(JSON_T_OBJECT_BEGIN, no_value), str_event True ''b'', (JSON_T_ARRAY_BEGIN, no_value),
      int_event False 2, int_event False 3])"

text \<open>The context after the event of the text \<open>[\<close>.\<close>

definition array_open :: parser_context where
  "array_open = snd (call_back parse_json_cb (setup_context plain_env empty_db False None)
     [(JSON_T_ARRAY_BEGIN, no_value)])"

text \<open>The store that the text \<open>{"a":1,"b":[2,3]}\<close> leaves when it is parsed as a
  document into the empty store.\<close>

definition sample_db :: database where
  "sample_db = \<lparr>records =
     [\<lparr>meta_array = False, meta_object = False, meta_doc = False, meta_param = False,
        rfields = [StrData ''a'', IntData 1]\<rparr>,
      \<lparr>meta_array = True, meta_object = False, meta_doc = False, meta_param = False,
        rfields = [IntData 2, IntData 3]\<rparr>,
      \<lparr>meta_array = False, meta_object = False, meta_doc = False, meta_param = False,
        rfields = [StrData ''b'', RecData 1]\<rparr>,
      \<lparr>meta_array = False, meta_object = True, meta_doc = True, meta_param = False,
        rfields = [RecData 0, RecData 2]\<rparr>],
     refusals = []\<rparr>"

section \<open>Bytes as the driver reads them\<close>

lemma of_char_bounds: "0 \<le> (of_char c :: int)" "(of_char c :: int) < 256"
proof -
  have "(of_char c :: int) = int (of_char c)" by (simp add: of_nat_of_char)
  moreover have "(of_char c :: nat) < 256" by simp
  ultimately show "0 \<le> (of_char c :: int)" "(of_char c :: int) < 256" by simp_all
qed

lemma next_char_of_unsigned: "next_char_of False c = of_char c"
  by (simp add: next_char_of_def)

lemma next_char_of_ascii: "(of_char c :: nat) < 128 \<Longrightarrow> next_char_of sg c = of_char c"
proof -
  assume "(of_char c :: nat) < 128"
  then have "int (of_char c) < 128" by simp
  then have "(of_char c :: int) < 128" by (simp add: of_nat_of_char)
  then show ?thesis by (simp add: next_char_of_def)
qed

lemma next_char_of_zero: "next_char_of sg c = 0 \<longleftrightarrow> c = NUL"
proof -
  have z: "(of_char c :: int) = 0 \<longleftrightarrow> c = NUL"
    using of_char_eq_iff [of c "CHR 0x00", where ?'a = int] by (simp add: NUL_def)
  have "(of_char c :: int) - 256 \<noteq> 0" using of_char_bounds(2) [of c] by simp
  with z show ?thesis by (auto simp add: next_char_of_def)
qed

lemma json_byte_of_char: "json_byte p (of_char c) = json_char p c"
  using of_char_bounds [of c] by (simp add: json_byte_def)

lemma json_byte_negative: "i < 0 \<Longrightarrow> json_byte p i = ([], None)"
  by (simp add: json_byte_def)

lemmas byte_simps = next_char_of_zero next_char_of_ascii json_byte_def char_of_def

section \<open>Keys: \<open>add_key\<close>\<close>

lemma c_str_no_NUL: "NUL \<notin> set s \<Longrightarrow> c_str s = s"
  by (auto simp add: c_str_def)

lemma replicate_update_same: "(replicate n x)[i := x] = replicate n x"
  by (induction n arbitrary: i) (auto split: nat.splits)

lemma c_str_append_NUL: "NUL \<notin> set s \<Longrightarrow> c_str (s @ NUL # t) = s"
  by (simp add: c_str_def takeWhile_append)

lemma NUL_notin_c_str: "NUL \<notin> set (c_str s)"
  unfolding c_str_def by (metis (mono_tags, lifting) set_takeWhileD)

lemma c_str_idem: "c_str (c_str s) = c_str s"
  by (simp add: c_str_no_NUL NUL_notin_c_str)

lemma last_key_buffer:
  "(strncpy key 80)[79 := NUL]
     = take 79 (c_str key) @ replicate (80 - min 79 (length (c_str key))) NUL"
proof -
  let ?s = "c_str key"
  show ?thesis
  proof (cases "length ?s \<le> 79")
    case True
    then have "strncpy key 80 = ?s @ replicate (80 - length ?s) NUL"
      by (simp add: strncpy_def)
    moreover have "(?s @ replicate (80 - length ?s) NUL)[79 := NUL]
        = ?s @ replicate (80 - length ?s) NUL"
      using True by (simp add: list_update_append replicate_update_same)
    ultimately show ?thesis using True by (simp add: min_def)
  next
    case False
    then have a: "strncpy key 80 = take 80 ?s"
      by (simp add: strncpy_def)
    have "(take 80 ?s)[79 := NUL] = take 79 ?s @ [NUL]"
      using False by (auto simp add: list_eq_iff_nth_eq nth_list_update nth_append)
    then show ?thesis using False a by (simp add: min_def)
  qed
qed

lemma c_str_last_key_buffer: "c_str ((strncpy key 80)[79 := NUL]) = take 79 (c_str key)"
proof -
  have t: "NUL \<notin> set (take 79 (c_str key))"
    using NUL_notin_c_str by (meson in_set_takeD)
  have "80 - min 79 (length (c_str key)) = Suc (79 - min 79 (length (c_str key)))"
    by simp
  then show ?thesis
    using c_str_append_NUL [OF t] by (simp only: last_key_buffer replicate_Suc)
qed

text \<open>
  C6. A key is a C string (no NUL byte inside). When a frame is open, that is when
  \<open>stack_ptr\<close> is an index of the stack, \<open>add_key\<close> succeeds, and the buffer \<open>last_key\<close> of
  the top frame then holds the key if it has at most 79 characters, and its first 79
  characters otherwise, followed by NUL bytes up to the 80 bytes of the buffer: read as a
  C string, the pending key is the key cut to 79 characters.
\<close>

theorem add_key_truncates:
  assumes "0 \<le> stack_ptr ctx" and "stack_ptr ctx < MAX_DEPTH" and "NUL \<notin> set key"
  shows "fst (add_key ctx key) \<and>
         se_last_key (stack (snd (add_key ctx key)) (stack_ptr ctx))
           = (if length key \<le> 79 then key else take 79 key)
             @ replicate (80 - min 79 (length key)) NUL \<and>
         c_str (se_last_key (stack (snd (add_key ctx key)) (stack_ptr ctx)))
           = (if length key \<le> 79 then key else take 79 key)"
proof -
  have k: "c_str key = key" using assms(3) by (rule c_str_no_NUL)
  have b: "se_last_key (stack (snd (add_key ctx key)) (stack_ptr ctx))
      = take 79 key @ replicate (80 - min 79 (length key)) NUL"
    using assms(1,2) last_key_buffer [of key] by (simp add: add_key_def Let_def k)
  have c: "c_str (se_last_key (stack (snd (add_key ctx key)) (stack_ptr ctx))) = take 79 key"
    using assms(1,2) c_str_last_key_buffer [of key] by (simp add: add_key_def Let_def k)
  show ?thesis using assms(1,2) b c by (simp add: add_key_def Let_def)
qed

theorem add_key_truncates_witness:
  "fst (add_key (snd (push (setup_context plain_env empty_db False None) OBJECT))
          (replicate 100 (CHR ''k''))) \<and>
   c_str (se_last_key (stack (snd (add_key
          (snd (push (setup_context plain_env empty_db False None) OBJECT))
          (replicate 100 (CHR ''k'')))) 0)) = replicate 79 (CHR ''k'')"
proof -
  let ?ctx = "snd (push (setup_context plain_env empty_db False None) OBJECT)"
  let ?key = "replicate 100 (CHR ''k'')"
  have p: "stack_ptr ?ctx = 0"
    by (simp add: push_def setup_context_def Let_def MAX_DEPTH_def)
  have h: "0 \<le> stack_ptr ?ctx" "stack_ptr ?ctx < MAX_DEPTH" "NUL \<notin> set ?key"
    by (simp_all add: p MAX_DEPTH_def NUL_def)
  note t = add_key_truncates [OF h]
  have a: "fst (add_key ?ctx ?key)"
    using t by (rule conjunct1)
  have c: "c_str (se_last_key (stack (snd (add_key ?ctx ?key)) (stack_ptr ?ctx)))
      = (if length ?key \<le> 79 then ?key else take 79 ?key)"
    using t by (rule conjunct2 [THEN conjunct2])
  have "(if length ?key \<le> 79 then ?key else take 79 ?key) = replicate 79 (CHR ''k'')"
    by simp
  with a c show ?thesis
    by (simp only: p)
qed

section \<open>The printer's entry point\<close>

text \<open>
  C8. For a record that is not a document, \<open>wg_print_json_document\<close> leaves the stream as
  it was and writes one diagnostic; for a document it is the stream and diagnostics of
  \<open>pretty_print_json\<close> on that record.
\<close>

theorem print_document_guard:
  "(\<not> is_schema_document d rec \<longrightarrow>
      wg_print_json_document snp n d f rec
        = Some (f, [''wg json I/O error: Given record is not a document.'' @ [CHR 0x0A]])) \<and>
   (is_schema_document d rec \<longrightarrow>
      wg_print_json_document snp n d f rec
        = map_option snd (pretty_print_json snp n d f rec 0 0 1))"
  by (simp add: wg_print_json_document_def show_json_error_def)

section \<open>Events that the consumer ignores\<close>

lemma new_record_accepts:
  "refusals d = [] \<Longrightarrow> new_record d r = (Some (length (records d)), d\<lparr>records := records d @ [r]\<rparr>)"
  by (simp add: new_record_def refused_def)

text \<open>
  C9. An event of any type other than the eight that \<open>parse_json_cb\<close> handles is
  answered with success, and the context (the stack and the store in it) stays as it
  was. So the array \<open>[true]\<close> is materialized as an array record with no field, when the
  store refuses nothing.
\<close>

theorem other_events_ignored:
  "(type \<notin> {JSON_T_ARRAY_BEGIN, JSON_T_ARRAY_END, JSON_T_OBJECT_BEGIN, JSON_T_OBJECT_END,
       JSON_T_KEY, JSON_T_INTEGER, JSON_T_FLOAT, JSON_T_STRING}
     \<longrightarrow> parse_json_cb ctx type val = (True, ctx)) \<and>
   (refusals d = [] \<longrightarrow>
      wg_parse_json_document json_tokenizer env d ''[true]''
        = (0, [], d\<lparr>records := records d @
             [\<lparr>meta_array = True, meta_object = False, meta_doc = True, meta_param = False,
               rfields = []\<rparr>]\<rparr>, Some (length (records d))))"
proof (intro conjI impI)
  assume "type \<notin> {JSON_T_ARRAY_BEGIN, JSON_T_ARRAY_END, JSON_T_OBJECT_BEGIN,
    JSON_T_OBJECT_END, JSON_T_KEY, JSON_T_INTEGER, JSON_T_FLOAT, JSON_T_STRING}"
  then show "parse_json_cb ctx type val = (True, ctx)"
    by (cases type) (simp_all add: parse_json_cb_def)
next
  assume r: "refusals d = []"
  show "wg_parse_json_document json_tokenizer env d ''[true]''
        = (0, [], d\<lparr>records := records d @
             [\<lparr>meta_array = True, meta_object = False, meta_doc = True, meta_param = False,
               rfields = []\<rparr>]\<rparr>, Some (length (records d)))"
    using r
    by (simp add: wg_parse_json_document_def run_json_parser_def setup_context_def
        json_tokenizer_def json_new_def json_char_def json_done_def JSON_parser_char_def
        byte_simps open_container_def close_container_def start_value_def after_value_def is_ws_def
        is_digit_def NUL_def MAX_DEPTH_def no_value_def parse_json_cb_def push_def pop_def
        wg_create_array_def new_record_accepts Let_def)
qed

theorem other_events_ignored_witness:
  "parse_json_cb (setup_context plain_env empty_db False None) JSON_T_TRUE no_value
     = (True, setup_context plain_env empty_db False None) \<and>
   wg_parse_json_document json_tokenizer plain_env empty_db ''[true]''
     = (0, [], \<lparr>records = [\<lparr>meta_array = True, meta_object = False, meta_doc = True,
          meta_param = False, rfields = []\<rparr>], refusals = []\<rparr>, Some 0)"
  using other_events_ignored [of JSON_T_TRUE "setup_context plain_env empty_db False None"
      no_value empty_db plain_env]
  by (simp add: empty_db_def)

theorem print_document_guard_witness:
  "\<not> is_schema_document empty_db 0 \<and>
   wg_print_json_document wg_snprint_value 5 empty_db ''text'' 0
     = Some (''text'', [''wg json I/O error: Given record is not a document.'' @ [CHR 0x0A]]) \<and>
   is_schema_document sample_db 3 \<and>
   wg_print_json_document wg_snprint_value 5 sample_db ''text'' 3
     = map_option snd (pretty_print_json wg_snprint_value 5 sample_db ''text'' 3 0 0 1)"
  using print_document_guard [of empty_db 0 wg_snprint_value 5 "''text''"]
    print_document_guard [of sample_db 3 wg_snprint_value 5 "''text''"]
  by (simp add: is_schema_document_def empty_db_def sample_db_def)

section \<open>The result code of the drivers\<close>

lemma call_back_append:
  "call_back cb ctx (xs @ ys) =
     (case call_back cb ctx xs of
        (False, ctx') \<Rightarrow> (False, ctx')
      | (True, ctx') \<Rightarrow> call_back cb ctx' ys)"
  by (induction xs arbitrary: ctx) (auto split: prod.splits bool.splits)

lemma feed_rejected:
  "tokenize tok sg jc buf = None \<Longrightarrow> fst (feed tok cb sg jc ctx n buf) = None"
proof (induction buf arbitrary: jc ctx n)
  case Nil
  then show ?case by simp
next
  case (Cons c cs)
  then show ?case
    by (auto simp add: JSON_parser_char_def split: prod.splits option.splits bool.splits if_splits)
qed

lemma feed_tokenize:
  "tokenize tok sg jc buf = Some (evs, jc') \<Longrightarrow>
     fst (feed tok cb sg jc ctx n buf) = (if fst (call_back cb ctx evs) then Some jc' else None) \<and>
     fst (snd (feed tok cb sg jc ctx n buf)) = snd (call_back cb ctx evs)"
proof (induction buf arbitrary: jc ctx n evs)
  case Nil
  then show ?case by simp
next
  case (Cons c cs)
  show ?case
  proof (cases "next_char_of sg c = 0")
    case True
    with Cons.prems show ?thesis by simp
  next
    case False
    obtain e1 r where pc: "parser_char tok jc (next_char_of sg c) = (e1, r)"
      by (cases "parser_char tok jc (next_char_of sg c)")
    with Cons.prems False obtain j1 where r: "r = Some j1"
      by (cases r) auto
    from Cons.prems False pc r obtain e2 where
      t: "tokenize tok sg j1 cs = Some (e2, jc')" and evs: "evs = e1 @ e2"
      by (auto split: option.splits)
    obtain ok c1 where cb1: "call_back cb ctx e1 = (ok, c1)" by (cases "call_back cb ctx e1")
    show ?thesis
    proof (cases ok)
      case True
      with Cons.IH [OF t, of c1 "n + 1"] cb1 pc r False evs show ?thesis
        by (simp add: JSON_parser_char_def call_back_append)
    next
      case False
      with cb1 pc r \<open>next_char_of sg c \<noteq> 0\<close> evs show ?thesis
        by (simp add: JSON_parser_char_def call_back_append)
    qed
  qed
qed

lemma run_json_parser_code:
  "fst (run_json_parser tok env d buf cb p doc) =
     (case token_events tok (char_signed env) buf of
        None \<Rightarrow> -2
      | Some evs \<Rightarrow> if fst (call_back cb (setup_context env d p doc) evs) then 0 else -2)"
proof (cases "tokenize tok (char_signed env) (new_parser tok (MAX_DEPTH - 1) True) buf")
  case None
  from feed_rejected [OF None, of cb "setup_context env d p doc" 0] None show ?thesis
    by (cases "feed tok cb (char_signed env) (new_parser tok (MAX_DEPTH - 1) True) (setup_context env d p doc) 0 buf")
      (auto simp add: run_json_parser_def token_events_def)
next
  case (Some a)
  obtain evs jc' where a: "a = (evs, jc')" by (cases a)
  from feed_tokenize [OF Some [unfolded a], of cb "setup_context env d p doc" 0] Some a
  show ?thesis
    by (cases "feed tok cb (char_signed env) (new_parser tok (MAX_DEPTH - 1) True) (setup_context env d p doc) 0 buf")
      (auto simp add: run_json_parser_def token_events_def)
qed

text \<open>
  C1, as the code has it. The two drivers on a buffer in memory answer 0 or -2 and never
  -1: -2 (Fatal) for every buffer that the tokenizer rejects as syntactically invalid, and
  also when the syntax is accepted and the callback fails on one of the events; 0 when
  the syntax is accepted and the callback succeeds on every event.
\<close>

theorem drivers_result_code:
  "fst (wg_parse_json_document tok env d buf) =
     (case token_events tok (char_signed env) buf of
        None \<Rightarrow> -2
      | Some evs \<Rightarrow>
          if fst (call_back parse_json_cb (setup_context env d False None) evs) then 0 else -2) \<and>
   fst (wg_parse_json_param tok env d buf doc) =
     (case token_events tok (char_signed env) buf of
        None \<Rightarrow> -2
      | Some evs \<Rightarrow>
          if fst (call_back parse_json_cb (setup_context env d True doc) evs) then 0 else -2) \<and>
   fst (wg_parse_json_document tok env d buf) \<noteq> -1 \<and>
   fst (wg_parse_json_param tok env d buf doc) \<noteq> -1"
  by (simp add: wg_parse_json_document_def wg_parse_json_param_def run_json_parser_code
      split: option.splits)

lemmas json_tokenizer_simps =
  json_tokenizer_def json_new_def json_char_def json_done_def JSON_parser_char_def byte_simps
  open_container_def close_container_def start_value_def after_value_def start_comment_def
  emit_then_def unescape_def
  is_ws_def is_digit_def digit_val_def NUL_def

lemmas event_simps =
  int_event_def str_event_def integer_event_def string_event_def key_event_def no_value_def

text \<open>The buffer \<open>{"a": }\<close> is rejected by the tokenizer, at its byte 6; the document driver
  answers -2 for it, and the parameter driver too. The store is as it was.\<close>

theorem malformed_is_fatal:
  "\<not> syntax_accepted json_tokenizer True (''{'' @ quoted ''a'' @ '': }'') \<and>
   wg_parse_json_document json_tokenizer plain_env empty_db (''{'' @ quoted ''a'' @ '': }'')
     = (-2, [''wg json I/O error: JSON parsing failed (byte=6)'' @ [CHR 0x0A]], empty_db, None) \<and>
   wg_parse_json_param json_tokenizer plain_env empty_db (''{'' @ quoted ''a'' @ '': }'') None
     = (-2, [''wg json I/O error: JSON parsing failed (byte=6)'' @ [CHR 0x0A]], empty_db, None)"
  by (simp add: syntax_accepted_def token_events_def wg_parse_json_document_def
      wg_parse_json_param_def run_json_parser_def setup_context_def quoted_def
      json_tokenizer_simps event_simps MAX_DEPTH_def parse_json_cb_def push_def add_key_def
      Let_def show_json_error_byte_def dec_int_def digit_char_def plain_env_def)

section \<open>The depth of the stack\<close>

lemma push_result:
  "push ctx t =
     (if stack_ptr ctx + 1 \<ge> MAX_DEPTH then (False, ctx\<lparr>stack_ptr := stack_ptr ctx + 1\<rparr>)
      else (True, ctx\<lparr>stack_ptr := stack_ptr ctx + 1,
              stack := (stack ctx)(stack_ptr ctx + 1 :=
                (stack ctx (stack_ptr ctx + 1))\<lparr>se_size := 0, se_type := t, se_elems := []\<rparr>)\<rparr>))"
  by (simp add: push_def Let_def)

lemma begin_events_nest:
  "list_all is_begin evs \<Longrightarrow>
     fst (call_back parse_json_cb ctx evs) = (stack_ptr ctx + int (length evs) < MAX_DEPTH \<or> evs = [])"
proof (induction evs arbitrary: ctx)
  case Nil
  then show ?case by simp
next
  case (Cons ev evs)
  from Cons.prems have "is_begin ev" and r: "list_all is_begin evs" by simp_all
  then have b: "fst ev = JSON_T_ARRAY_BEGIN \<or> fst ev = JSON_T_OBJECT_BEGIN"
    by (simp add: is_begin_def)
  obtain t where cb: "parse_json_cb ctx (fst ev) (snd ev) = push ctx t"
    using b by (auto simp add: parse_json_cb_def)
  show ?case
  proof (cases "stack_ptr ctx + 1 \<ge> MAX_DEPTH")
    case True
    then show ?thesis by (simp add: cb push_result)
  next
    case False
    then have "call_back parse_json_cb ctx (ev # evs) = call_back parse_json_cb (snd (push ctx t)) evs"
      by (simp add: cb push_result)
    moreover have "stack_ptr (snd (push ctx t)) = stack_ptr ctx + 1"
      by (simp add: push_result)
    ultimately show ?thesis
      using Cons.IH [OF r, of "snd (push ctx t)"] False by auto
  qed
qed

lemma outside_kept_refl: "outside_kept ctx ctx"
  by (simp add: outside_kept_def)

lemma outside_kept_trans: "outside_kept a b \<Longrightarrow> outside_kept b c \<Longrightarrow> outside_kept a c"
  by (simp add: outside_kept_def)

lemma add_elem_frame:
  "add_elem ctx v = (ok, ctx') \<Longrightarrow> stack_ptr ctx' = stack_ptr ctx \<and> outside_kept ctx ctx'"
  by (auto simp add: add_elem_def malloc_def outside_kept_def Let_def
      split: if_splits list.splits prod.splits bool.splits)

lemma add_key_frame:
  "add_key ctx k = (ok, ctx') \<Longrightarrow> stack_ptr ctx' = stack_ptr ctx \<and> outside_kept ctx ctx'"
  by (auto simp add: add_key_def outside_kept_def Let_def split: if_splits)

lemma add_literal_frame:
  assumes "add_literal ctx v = (ok, ctx')"
  shows "stack_ptr ctx' = stack_ptr ctx \<and> outside_kept ctx ctx'"
proof (cases "stack_ptr ctx < 0 \<or> stack_ptr ctx \<ge> MAX_DEPTH")
  case True
  with assms show ?thesis by (auto simp add: add_literal_def outside_kept_def)
next
  case False
  show ?thesis
  proof (cases "se_type (stack ctx (stack_ptr ctx)) = ARRAY")
    case True
    with assms False have "add_elem ctx v = (ok, ctx')"
      by (simp add: add_literal_def Let_def)
    then show ?thesis by (rule add_elem_frame)
  next
    case nar: False
    obtain key d1 where k: "wg_encode_str (db ctx) (se_last_key (stack ctx (stack_ptr ctx))) = (key, d1)"
      by (cases "wg_encode_str (db ctx) (se_last_key (stack ctx (stack_ptr ctx)))")
    show ?thesis
    proof (cases "key = WG_ILLEGAL")
      case True
      with assms False nar k show ?thesis
        by (auto simp add: add_literal_def Let_def outside_kept_def)
    next
      case ok: False
      obtain r d2 where c: "wg_create_kvpair d1 key v (isparam ctx) = (r, d2)"
        by (cases "wg_create_kvpair d1 key v (isparam ctx)")
      show ?thesis
      proof (cases r)
        case None
        with assms False nar k ok c show ?thesis
          by (auto simp add: add_literal_def Let_def outside_kept_def)
      next
        case (Some rec)
        with assms False nar k ok c
        have "add_elem (ctx\<lparr>db := d2\<rparr>) (wg_encode_record d2 rec) = (ok, ctx')"
          by (simp add: add_literal_def Let_def)
        from add_elem_frame [OF this] show ?thesis
          by (simp add: outside_kept_def)
      qed
    qed
  qed
qed

lemma push_frame:
  assumes "push ctx t = (ok, ctx')" and "- 1 \<le> stack_ptr ctx"
  shows "stack_ptr ctx' = stack_ptr ctx + 1 \<and> outside_kept ctx ctx' \<and>
         ok = (stack_ptr ctx + 1 < MAX_DEPTH)"
  using assms by (auto simp add: push_result outside_kept_def split: if_splits)

lemma pop_frame:
  assumes "pop ctx = (ok, ctx')" and "stack_ptr ctx < MAX_DEPTH"
  shows "stack_ptr ctx' = (if stack_ptr ctx < 0 then stack_ptr ctx else stack_ptr ctx - 1) \<and>
         outside_kept ctx ctx'"
proof (cases "stack_ptr ctx < 0")
  case True
  with assms show ?thesis by (simp add: pop_def outside_kept_def)
next
  case False
  define p where "p = stack_ptr ctx"
  define e where "e = stack ctx p"
  define top where "top = (p - 1 < 0)"
  obtain rec d1 where cr: "(if se_type e = ARRAY
      then wg_create_array (db ctx) (se_size e) top (isparam ctx)
      else wg_create_object (db ctx) (se_size e) top (isparam ctx)) = (rec, d1)"
    by (cases "if se_type e = ARRAY
      then wg_create_array (db ctx) (se_size e) top (isparam ctx)
      else wg_create_object (db ctx) (se_size e) top (isparam ctx)")
  show ?thesis
  proof (cases rec)
    case None
    with assms False cr show ?thesis
      by (auto simp add: pop_def Let_def outside_kept_def p_def e_def top_def split: if_splits)
  next
    case (Some r)
    obtain ok2 d2 where sf: "set_fields d1 r 0 (se_elems e) = (ok2, d2)"
      by (cases "set_fields d1 r 0 (se_elems e)")
    define ctx3 where "ctx3 = (if top then ctx\<lparr>stack_ptr := p - 1, db := d2, document := Some r\<rparr>
        else ctx\<lparr>stack_ptr := p - 1, db := d2\<rparr>)\<lparr>stack := (stack ctx)(p := e\<lparr>se_elems := [], se_size := 0\<rparr>)\<rparr>"
    have c3: "stack_ptr ctx3 = p - 1" "outside_kept ctx ctx3"
      using False assms(2) by (auto simp add: ctx3_def outside_kept_def p_def)
    have pp: "pop ctx = (if \<not> top \<and> ok2 then add_literal ctx3 (wg_encode_record (db ctx3) r)
        else (ok2, ctx3))"
      using False cr Some sf
      by (auto simp add: pop_def Let_def p_def e_def top_def ctx3_def split: if_splits)
    show ?thesis
    proof (cases "\<not> top \<and> ok2")
      case True
      with pp assms(1) have "add_literal ctx3 (wg_encode_record (db ctx3) r) = (ok, ctx')"
        by simp
      from add_literal_frame [OF this] c3 False show ?thesis
        using outside_kept_trans [of ctx ctx3 ctx'] by (auto simp add: p_def)
    next
      case f: False
      with pp assms(1) have "ctx' = ctx3" by auto
      with c3 False show ?thesis by (auto simp add: p_def)
    qed
  qed
qed

lemma parse_json_cb_frame:
  assumes "parse_json_cb ctx type val = (ok, ctx')"
    and "- 1 \<le> stack_ptr ctx" and "stack_ptr ctx < MAX_DEPTH"
  shows "- 1 \<le> stack_ptr ctx' \<and> stack_ptr ctx' \<le> MAX_DEPTH \<and>
         (ok \<longrightarrow> stack_ptr ctx' < MAX_DEPTH) \<and> outside_kept ctx ctx'"
proof (cases type)
  case JSON_T_ARRAY_BEGIN
  with assms(1) have "push ctx ARRAY = (ok, ctx')" by (simp add: parse_json_cb_def)
  from push_frame [OF this assms(2)] assms(2,3) show ?thesis by auto
next
  case JSON_T_OBJECT_BEGIN
  with assms(1) have "push ctx OBJECT = (ok, ctx')" by (simp add: parse_json_cb_def)
  from push_frame [OF this assms(2)] assms(2,3) show ?thesis by auto
next
  case JSON_T_ARRAY_END
  with assms(1) have "pop ctx = (ok, ctx')" by (simp add: parse_json_cb_def)
  from pop_frame [OF this assms(3)] assms(2,3) show ?thesis by auto
next
  case JSON_T_OBJECT_END
  with assms(1) have "pop ctx = (ok, ctx')" by (simp add: parse_json_cb_def)
  from pop_frame [OF this assms(3)] assms(2,3) show ?thesis by auto
next
  case JSON_T_KEY
  with assms(1) have "add_key ctx (str_value val) = (ok, ctx')" by (simp add: parse_json_cb_def)
  from add_key_frame [OF this] assms(2,3) show ?thesis by auto
next
  case JSON_T_INTEGER
  obtain v d1 where e: "wg_encode_int (db ctx) (integer_value val) = (v, d1)"
    by (cases "wg_encode_int (db ctx) (integer_value val)")
  show ?thesis
  proof (cases "v = WG_ILLEGAL")
    case True
    with assms JSON_T_INTEGER e show ?thesis
      by (auto simp add: parse_json_cb_def outside_kept_def)
  next
    case False
    with assms(1) JSON_T_INTEGER e have "add_literal (ctx\<lparr>db := d1\<rparr>) v = (ok, ctx')"
      by (simp add: parse_json_cb_def)
    from add_literal_frame [OF this] assms(2,3) show ?thesis
      by (auto simp add: outside_kept_def)
  qed
next
  case JSON_T_FLOAT
  obtain v d1 where e: "wg_encode_double (db ctx) (float_value val) = (v, d1)"
    by (cases "wg_encode_double (db ctx) (float_value val)")
  show ?thesis
  proof (cases "v = WG_ILLEGAL")
    case True
    with assms JSON_T_FLOAT e show ?thesis
      by (auto simp add: parse_json_cb_def outside_kept_def)
  next
    case False
    with assms(1) JSON_T_FLOAT e have "add_literal (ctx\<lparr>db := d1\<rparr>) v = (ok, ctx')"
      by (simp add: parse_json_cb_def)
    from add_literal_frame [OF this] assms(2,3) show ?thesis
      by (auto simp add: outside_kept_def)
  qed
next
  case JSON_T_STRING
  obtain v d1 where e: "wg_encode_str (db ctx) (str_value val) = (v, d1)"
    by (cases "wg_encode_str (db ctx) (str_value val)")
  show ?thesis
  proof (cases "v = WG_ILLEGAL")
    case True
    with assms JSON_T_STRING e show ?thesis
      by (auto simp add: parse_json_cb_def outside_kept_def)
  next
    case False
    with assms(1) JSON_T_STRING e have "add_literal (ctx\<lparr>db := d1\<rparr>) v = (ok, ctx')"
      by (simp add: parse_json_cb_def)
    from add_literal_frame [OF this] assms(2,3) show ?thesis
      by (auto simp add: outside_kept_def)
  qed
qed (use assms in \<open>auto simp add: parse_json_cb_def outside_kept_def\<close>)

lemma call_back_frame:
  assumes "- 1 \<le> stack_ptr ctx" and "stack_ptr ctx < MAX_DEPTH"
  shows "- 1 \<le> stack_ptr (snd (call_back parse_json_cb ctx evs)) \<and>
         stack_ptr (snd (call_back parse_json_cb ctx evs)) \<le> MAX_DEPTH \<and>
         (fst (call_back parse_json_cb ctx evs)
            \<longrightarrow> stack_ptr (snd (call_back parse_json_cb ctx evs)) < MAX_DEPTH) \<and>
         outside_kept ctx (snd (call_back parse_json_cb ctx evs))"
  using assms
proof (induction evs arbitrary: ctx)
  case Nil
  then show ?case by (simp add: outside_kept_refl)
next
  case (Cons ev evs)
  obtain ok c1 where s: "parse_json_cb ctx (fst ev) (snd ev) = (ok, c1)"
    by (cases "parse_json_cb ctx (fst ev) (snd ev)")
  note f = parse_json_cb_frame [OF s Cons.prems]
  show ?case
  proof (cases ok)
    case True
    with f have r: "- 1 \<le> stack_ptr c1" "stack_ptr c1 < MAX_DEPTH" by auto
    from Cons.IH [OF r] f s True show ?thesis
      using outside_kept_trans [of ctx c1 "snd (call_back parse_json_cb c1 evs)"] by simp
  next
    case False
    with f s show ?thesis by simp
  qed
qed

section \<open>What \<open>pop\<close> does with the new record\<close>

lemma pop_unfold:
  assumes "0 \<le> stack_ptr ctx"
    and "(if se_type (stack ctx (stack_ptr ctx)) = ARRAY
          then wg_create_array (db ctx) (se_size (stack ctx (stack_ptr ctx)))
                 (stack_ptr ctx - 1 < 0) (isparam ctx)
          else wg_create_object (db ctx) (se_size (stack ctx (stack_ptr ctx)))
                 (stack_ptr ctx - 1 < 0) (isparam ctx)) = (Some r, d1)"
    and "set_fields d1 r 0 (se_elems (stack ctx (stack_ptr ctx))) = (ok, d2)"
  shows "pop ctx =
     (if stack_ptr ctx - 1 < 0
      then (ok, ctx\<lparr>stack_ptr := stack_ptr ctx - 1, db := d2, document := Some r,
              stack := (stack ctx)(stack_ptr ctx :=
                (stack ctx (stack_ptr ctx))\<lparr>se_elems := [], se_size := 0\<rparr>)\<rparr>)
      else if ok
      then add_literal (ctx\<lparr>stack_ptr := stack_ptr ctx - 1, db := d2,
              stack := (stack ctx)(stack_ptr ctx :=
                (stack ctx (stack_ptr ctx))\<lparr>se_elems := [], se_size := 0\<rparr>)\<rparr>) (RecData r)
      else (False, ctx\<lparr>stack_ptr := stack_ptr ctx - 1, db := d2,
              stack := (stack ctx)(stack_ptr ctx :=
                (stack ctx (stack_ptr ctx))\<lparr>se_elems := [], se_size := 0\<rparr>)\<rparr>))"
  using assms by (auto simp add: pop_def Let_def wg_encode_record_def split: if_splits)

lemma pop_unfold_refused:
  assumes "0 \<le> stack_ptr ctx"
    and "(if se_type (stack ctx (stack_ptr ctx)) = ARRAY
          then wg_create_array (db ctx) (se_size (stack ctx (stack_ptr ctx)))
                 (stack_ptr ctx - 1 < 0) (isparam ctx)
          else wg_create_object (db ctx) (se_size (stack ctx (stack_ptr ctx)))
                 (stack_ptr ctx - 1 < 0) (isparam ctx)) = (None, d1)"
  shows "pop ctx = (False, ctx\<lparr>stack_ptr := stack_ptr ctx - 1, db := d1,
              stack := (stack ctx)(stack_ptr ctx :=
                (stack ctx (stack_ptr ctx))\<lparr>se_elems := [], se_size := 0\<rparr>)\<rparr>)"
  using assms by (auto simp add: pop_def Let_def split: if_splits)

text \<open>
  C10. When the outermost frame is popped, the record is created and writing one of its
  fields fails, \<open>pop\<close> fails and the document slot holds the new record all the same. The
  parameter driver then answers -2 with that record in the caller's slot: for the text
  \<open>[1]\<close> and a store that refuses the third request (the \<open>wg_set_field\<close>), the slot holds
  record 0, whose only field was never written.
\<close>

theorem toplevel_pop_leaks_document:
  "(stack_ptr ctx = 0 \<and>
    (if se_type (stack ctx 0) = ARRAY
     then wg_create_array (db ctx) (se_size (stack ctx 0)) True (isparam ctx)
     else wg_create_object (db ctx) (se_size (stack ctx 0)) True (isparam ctx)) = (Some r, d1) \<and>
    set_fields d1 r 0 (se_elems (stack ctx 0)) = (False, d2)
    \<longrightarrow> fst (pop ctx) = False \<and> document (snd (pop ctx)) = Some r \<and> db (snd (pop ctx)) = d2) \<and>
   wg_parse_json_param json_tokenizer plain_env
       \<lparr>records = [], refusals = [False, False, True]\<rparr> ''[1]'' None
     = (-2, [''wg json I/O error: JSON parsing failed (byte=2)'' @ [CHR 0x0A]],
        \<lparr>records = [\<lparr>meta_array = True, meta_object = False, meta_doc = True,
            meta_param = True, rfields = [NullData]\<rparr>], refusals = []\<rparr>,
        Some 0)"
proof (intro conjI impI)
  assume a: "stack_ptr ctx = 0 \<and>
    (if se_type (stack ctx 0) = ARRAY
     then wg_create_array (db ctx) (se_size (stack ctx 0)) True (isparam ctx)
     else wg_create_object (db ctx) (se_size (stack ctx 0)) True (isparam ctx)) = (Some r, d1) \<and>
    set_fields d1 r 0 (se_elems (stack ctx 0)) = (False, d2)"
  then have p: "0 \<le> stack_ptr ctx" by simp
  have cr: "(if se_type (stack ctx (stack_ptr ctx)) = ARRAY
          then wg_create_array (db ctx) (se_size (stack ctx (stack_ptr ctx)))
                 (stack_ptr ctx - 1 < 0) (isparam ctx)
          else wg_create_object (db ctx) (se_size (stack ctx (stack_ptr ctx)))
                 (stack_ptr ctx - 1 < 0) (isparam ctx)) = (Some r, d1)"
    using a by (auto split: if_splits)
  have sf: "set_fields d1 r 0 (se_elems (stack ctx (stack_ptr ctx))) = (False, d2)"
    using a by simp
  have "pop ctx = (False, ctx\<lparr>stack_ptr := stack_ptr ctx - 1, db := d2, document := Some r,
              stack := (stack ctx)(stack_ptr ctx :=
                (stack ctx (stack_ptr ctx))\<lparr>se_elems := [], se_size := 0\<rparr>)\<rparr>)"
    using pop_unfold [OF p cr sf] a by simp
  then show "fst (pop ctx) = False" "document (snd (pop ctx)) = Some r" "db (snd (pop ctx)) = d2"
    by simp_all
next
  show "wg_parse_json_param json_tokenizer plain_env
       \<lparr>records = [], refusals = [False, False, True]\<rparr> ''[1]'' None
     = (-2, [''wg json I/O error: JSON parsing failed (byte=2)'' @ [CHR 0x0A]],
        \<lparr>records = [\<lparr>meta_array = True, meta_object = False, meta_doc = True,
            meta_param = True, rfields = [NullData]\<rparr>], refusals = []\<rparr>,
        Some 0)"
    by (simp add: wg_parse_json_param_def run_json_parser_def setup_context_def
        json_tokenizer_simps event_simps MAX_DEPTH_def parse_json_cb_def push_def pop_def
        add_literal_def
        add_elem_def malloc_def wg_encode_int_def wg_create_array_def new_record_def
        wg_set_field_def refused_def wg_encode_record_def Let_def
        show_json_error_byte_def dec_int_def digit_char_def plain_env_def plain_entry_def)
qed

theorem toplevel_pop_leaks_document_witness:
  "fst (pop \<lparr>state = 0, stack = (\<lambda>i. \<lparr>se_type = ARRAY, se_elems = [IntData 1],
            se_last_key = [], se_size = 1\<rparr>), stack_ptr = 0,
          db = \<lparr>records = [], refusals = [False, True]\<rparr>, isparam = True,
          document = None, heap = []\<rparr>) = False \<and>
   document (snd (pop \<lparr>state = 0, stack = (\<lambda>i. \<lparr>se_type = ARRAY, se_elems = [IntData 1],
            se_last_key = [], se_size = 1\<rparr>), stack_ptr = 0,
          db = \<lparr>records = [], refusals = [False, True]\<rparr>, isparam = True,
          document = None, heap = []\<rparr>)) = Some 0"
  using toplevel_pop_leaks_document [of
      "\<lparr>state = 0, stack = (\<lambda>i. \<lparr>se_type = ARRAY, se_elems = [IntData 1],
            se_last_key = [], se_size = 1\<rparr>), stack_ptr = 0,
          db = \<lparr>records = [], refusals = [False, True]\<rparr>, isparam = True,
          document = None, heap = []\<rparr>" 0
      "\<lparr>records = [\<lparr>meta_array = True, meta_object = False, meta_doc = True,
            meta_param = True, rfields = [NullData]\<rparr>], refusals = [True]\<rparr>"
      "\<lparr>records = [\<lparr>meta_array = True, meta_object = False, meta_doc = True,
            meta_param = True, rfields = [NullData]\<rparr>], refusals = []\<rparr>"]
  by (simp add: wg_create_array_def new_record_def refused_def wg_set_field_def)

section \<open>The child that \<open>pop\<close> hands to the parent frame\<close>

lemma new_record_Some:
  "new_record d x = (Some r, d1) \<Longrightarrow> r = length (records d) \<and> records d1 = records d @ [x]"
  by (auto simp add: new_record_def refused_def split: list.splits bool.splits if_splits)

lemma wg_set_field_length:
  "wg_set_field d r i v = (rc, d') \<Longrightarrow> length (records d') = length (records d)"
  by (auto simp add: wg_set_field_def refused_def split: if_splits list.splits bool.splits)

lemma set_fields_length:
  "set_fields d r i xs = (ok, d') \<Longrightarrow> length (records d') = length (records d)"
proof (induction xs arbitrary: d i)
  case Nil
  then show ?case by simp
next
  case (Cons x xs)
  obtain rc d1 where s: "wg_set_field d r i x = (rc, d1)" by (cases "wg_set_field d r i x")
  show ?case
  proof (cases "rc = 0")
    case True
    with Cons.prems s have "set_fields d1 r (i + 1) xs = (ok, d')" by simp
    from Cons.IH [OF this] wg_set_field_length [OF s] show ?thesis by simp
  next
    case False
    with Cons.prems s wg_set_field_length [OF s] show ?thesis by simp
  qed
qed

lemma add_elem_True:
  assumes "add_elem ctx v = (True, ctx')"
  shows "ctx' = ctx\<lparr>heap := tl (heap ctx),
            stack := (stack ctx)(stack_ptr ctx := (stack ctx (stack_ptr ctx))
              \<lparr>se_elems := se_elems (stack ctx (stack_ptr ctx)) @ [v],
               se_size := se_size (stack ctx (stack_ptr ctx)) + 1\<rparr>)\<rparr>"
  using assms
  by (auto simp add: add_elem_def malloc_def Let_def split: if_splits list.splits bool.splits)

lemma add_literal_array:
  assumes "add_literal ctx v = (True, ctx')" and "se_type (stack ctx (stack_ptr ctx)) = ARRAY"
  shows "ctx' = ctx\<lparr>heap := tl (heap ctx),
            stack := (stack ctx)(stack_ptr ctx := (stack ctx (stack_ptr ctx))
              \<lparr>se_elems := se_elems (stack ctx (stack_ptr ctx)) @ [v],
               se_size := se_size (stack ctx (stack_ptr ctx)) + 1\<rparr>)\<rparr>"
proof -
  from assms have "add_elem ctx v = (True, ctx')"
    by (auto simp add: add_literal_def Let_def split: if_splits)
  then show ?thesis by (rule add_elem_True)
qed

lemma add_literal_object:
  assumes "add_literal ctx v = (True, ctx')" and "se_type (stack ctx (stack_ptr ctx)) \<noteq> ARRAY"
  shows "\<exists>d2. records d2 = records (db ctx) @
             [\<lparr>meta_array = False, meta_object = False, meta_doc = False,
               meta_param = isparam ctx,
               rfields = [StrData (c_str (se_last_key (stack ctx (stack_ptr ctx)))), v]\<rparr>] \<and>
           ctx' = ctx\<lparr>db := d2, heap := tl (heap ctx),
            stack := (stack ctx)(stack_ptr ctx := (stack ctx (stack_ptr ctx))
              \<lparr>se_elems := se_elems (stack ctx (stack_ptr ctx))
                   @ [RecData (length (records (db ctx)))],
               se_size := se_size (stack ctx (stack_ptr ctx)) + 1\<rparr>)\<rparr>"
proof -
  let ?e = "stack ctx (stack_ptr ctx)"
  obtain key d1 where k: "wg_encode_str (db ctx) (se_last_key ?e) = (key, d1)"
    by (cases "wg_encode_str (db ctx) (se_last_key ?e)")
  from assms k have nk: "key \<noteq> WG_ILLEGAL"
    by (auto simp add: add_literal_def Let_def split: if_splits)
  with k have key: "key = StrData (c_str (se_last_key ?e))" and d1: "records d1 = records (db ctx)"
    by (auto simp add: wg_encode_str_def refused_def split: list.splits bool.splits if_splits)
  obtain r d2 where c: "wg_create_kvpair d1 key v (isparam ctx) = (r, d2)"
    by (cases "wg_create_kvpair d1 key v (isparam ctx)")
  from assms k nk c obtain rec where r: "r = Some rec"
    by (cases r) (auto simp add: add_literal_def Let_def split: if_splits)
  from c r have n: "rec = length (records d1)"
    "records d2 = records d1 @ [\<lparr>meta_array = False, meta_object = False, meta_doc = False,
       meta_param = isparam ctx, rfields = [key, v]\<rparr>]"
    using new_record_Some [of d1 _ rec d2] by (simp_all add: wg_create_kvpair_def)
  from assms k nk c r have "add_elem (ctx\<lparr>db := d2\<rparr>) (RecData rec) = (True, ctx')"
    by (auto simp add: add_literal_def Let_def wg_encode_record_def split: if_splits)
  from add_elem_True [OF this] n key d1 show ?thesis by auto
qed

lemma pop_nested:
  assumes "1 \<le> stack_ptr ctx" and "stack_ptr ctx \<le> MAX_DEPTH" and "pop ctx = (True, ctx')"
  shows "stack_ptr ctx' = stack_ptr ctx - 1 \<and> document ctx' = document ctx \<and>
      length (records (db ctx)) < length (records (db ctx')) \<and>
      (if se_type (stack ctx (stack_ptr ctx - 1)) = ARRAY
       then se_elems (stack ctx' (stack_ptr ctx - 1))
              = se_elems (stack ctx (stack_ptr ctx - 1)) @ [RecData (length (records (db ctx)))]
       else se_elems (stack ctx' (stack_ptr ctx - 1))
              = se_elems (stack ctx (stack_ptr ctx - 1))
                  @ [RecData (length (records (db ctx)) + 1)] \<and>
            length (records (db ctx)) + 1 < length (records (db ctx')) \<and>
            rfields (records (db ctx') ! (length (records (db ctx)) + 1))
              = [StrData (c_str (se_last_key (stack ctx (stack_ptr ctx - 1)))),
                 RecData (length (records (db ctx)))])"
proof -
  from assms have p0: "0 \<le> stack_ptr ctx" and p1: "\<not> stack_ptr ctx - 1 < 0" by simp_all
  obtain rec d1 where cr: "(if se_type (stack ctx (stack_ptr ctx)) = ARRAY
          then wg_create_array (db ctx) (se_size (stack ctx (stack_ptr ctx)))
                 (stack_ptr ctx - 1 < 0) (isparam ctx)
          else wg_create_object (db ctx) (se_size (stack ctx (stack_ptr ctx)))
                 (stack_ptr ctx - 1 < 0) (isparam ctx)) = (rec, d1)"
    by fastforce
  from assms(3) pop_unfold_refused [OF p0, of d1] cr obtain r where r: "rec = Some r"
    by (cases rec) auto
  obtain ok d2 where sf: "set_fields d1 r 0 (se_elems (stack ctx (stack_ptr ctx))) = (ok, d2)"
    by fastforce
  define c3 where "c3 = ctx\<lparr>stack_ptr := stack_ptr ctx - 1, db := d2,
              stack := (stack ctx)(stack_ptr ctx :=
                (stack ctx (stack_ptr ctx))\<lparr>se_elems := [], se_size := 0\<rparr>)\<rparr>"
  from pop_unfold [OF p0 cr [unfolded r] sf] assms(3) p1
  have al: "add_literal c3 (RecData r) = (True, ctx')"
    by (auto simp add: c3_def split: if_splits)
  from cr r have rn: "r = length (records (db ctx))"
    "length (records d1) = length (records (db ctx)) + 1"
    using new_record_Some [of "db ctx" _ r d1]
    by (auto simp add: wg_create_array_def wg_create_object_def split: if_splits)
  from set_fields_length [OF sf] rn have l2: "length (records d2) = length (records (db ctx)) + 1"
    by simp
  have par: "stack c3 (stack_ptr c3) = stack ctx (stack_ptr ctx - 1)"
    by (simp add: c3_def)
  have dc3: "db c3 = d2" "stack_ptr c3 = stack_ptr ctx - 1" "document c3 = document ctx"
    by (simp_all add: c3_def)
  show ?thesis
  proof (cases "se_type (stack ctx (stack_ptr ctx - 1)) = ARRAY")
    case True
    with par have "se_type (stack c3 (stack_ptr c3)) = ARRAY" by simp
    from add_literal_array [OF al this] True rn l2 par dc3
    show ?thesis by simp
  next
    case False
    with par have "se_type (stack c3 (stack_ptr c3)) \<noteq> ARRAY" by simp
    from add_literal_object [OF al this] obtain d3 where
      d3: "records d3 = records (db c3) @
             [\<lparr>meta_array = False, meta_object = False, meta_doc = False,
               meta_param = isparam c3,
               rfields = [StrData (c_str (se_last_key (stack c3 (stack_ptr c3)))), RecData r]\<rparr>]"
      and c': "ctx' = c3\<lparr>db := d3, heap := tl (heap c3),
            stack := (stack c3)(stack_ptr c3 := (stack c3 (stack_ptr c3))
              \<lparr>se_elems := se_elems (stack c3 (stack_ptr c3))
                   @ [RecData (length (records (db c3)))],
               se_size := se_size (stack c3 (stack_ptr c3)) + 1\<rparr>)\<rparr>"
      by blast
    from c' d3 False rn l2 par dc3
    show ?thesis by (simp add: nth_append)
  qed
qed

lemma pop_outermost:
  assumes "stack_ptr ctx = 0" and "pop ctx = (True, ctx')"
  shows "stack_ptr ctx' = - 1 \<and> document ctx' = Some (length (records (db ctx))) \<and>
      stack ctx' = (stack ctx)(0 := (stack ctx 0)\<lparr>se_elems := [], se_size := 0\<rparr>)"
proof -
  from assms have p0: "0 \<le> stack_ptr ctx" by simp
  obtain rec d1 where cr: "(if se_type (stack ctx (stack_ptr ctx)) = ARRAY
          then wg_create_array (db ctx) (se_size (stack ctx (stack_ptr ctx)))
                 (stack_ptr ctx - 1 < 0) (isparam ctx)
          else wg_create_object (db ctx) (se_size (stack ctx (stack_ptr ctx)))
                 (stack_ptr ctx - 1 < 0) (isparam ctx)) = (rec, d1)"
    by fastforce
  from assms(2) pop_unfold_refused [OF p0, of d1] cr obtain r where r: "rec = Some r"
    by (cases rec) auto
  obtain ok d2 where sf: "set_fields d1 r 0 (se_elems (stack ctx (stack_ptr ctx))) = (ok, d2)"
    by fastforce
  from cr r have rn: "r = length (records (db ctx))"
    using new_record_Some [of "db ctx" _ r d1]
    by (auto simp add: wg_create_array_def wg_create_object_def split: if_splits)
  from pop_unfold [OF p0 cr [unfolded r] sf] assms rn
  show ?thesis by auto
qed

text \<open>
  C2, as the code has it. A successful \<open>pop\<close> that leaves the stack non-empty creates the
  record \<open>r\<close> (the next free record of the store) and hands its encoded handle to
  \<open>add_literal\<close>: when the new top frame is an array, the handle itself is appended as
  one child; when it is an object, a key-value pair of the pending key of that frame and
  the handle is created as the record after \<open>r\<close>, and the handle of the pair is appended
  as one child. The document slot is not written. A successful outermost \<open>pop\<close> stores
  the record in the document slot, and appends no child to any frame.
\<close>

theorem pop_hands_child_to_parent:
  "(1 \<le> stack_ptr ctx \<and> stack_ptr ctx \<le> MAX_DEPTH \<and> pop ctx = (True, ctx') \<longrightarrow>
      stack_ptr ctx' = stack_ptr ctx - 1 \<and> document ctx' = document ctx \<and>
      length (records (db ctx)) < length (records (db ctx')) \<and>
      (if se_type (stack ctx (stack_ptr ctx - 1)) = ARRAY
       then se_elems (stack ctx' (stack_ptr ctx - 1))
              = se_elems (stack ctx (stack_ptr ctx - 1)) @ [RecData (length (records (db ctx)))]
       else se_elems (stack ctx' (stack_ptr ctx - 1))
              = se_elems (stack ctx (stack_ptr ctx - 1))
                  @ [RecData (length (records (db ctx)) + 1)] \<and>
            length (records (db ctx)) + 1 < length (records (db ctx')) \<and>
            rfields (records (db ctx') ! (length (records (db ctx)) + 1))
              = [StrData (c_str (se_last_key (stack ctx (stack_ptr ctx - 1)))),
                 RecData (length (records (db ctx)))])) \<and>
   (stack_ptr ctx = 0 \<and> pop ctx = (True, ctx') \<longrightarrow>
      stack_ptr ctx' = - 1 \<and> document ctx' = Some (length (records (db ctx))) \<and>
      stack ctx' = (stack ctx)(0 := (stack ctx 0)\<lparr>se_elems := [], se_size := 0\<rparr>))"
  using pop_nested [of ctx ctx'] pop_outermost [of ctx ctx'] by blast

lemmas consumer_simps =
  parse_json_cb_def push_def pop_def add_key_def add_literal_def add_elem_def malloc_def
  wg_encode_int_def wg_encode_str_def wg_encode_double_def wg_encode_record_def
  wg_create_array_def wg_create_object_def wg_create_kvpair_def new_record_def
  wg_set_field_def refused_def setup_context_def plain_env_def plain_entry_def empty_db_def
  MAX_DEPTH_def Let_def c_str_last_key_buffer

lemma c_str_literal_b: "c_str ''b'' = ''b''"
  by (simp add: c_str_def NUL_def)

lemma array_in_object_pop:
  "fst (pop array_in_object) \<and> stack_ptr array_in_object = 1 \<and>
   se_type (stack array_in_object 0) = OBJECT \<and>
   se_elems (stack array_in_object 0) = [] \<and>
   records (db array_in_object) = [] \<and>
   stack_ptr (snd (pop array_in_object)) = 0 \<and>
   records (db (snd (pop array_in_object)))
     = [\<lparr>meta_array = True, meta_object = False, meta_doc = False, meta_param = False,
          rfields = [IntData 2, IntData 3]\<rparr>,
        \<lparr>meta_array = False, meta_object = False, meta_doc = False, meta_param = False,
          rfields = [StrData ''b'', RecData 0]\<rparr>] \<and>
   se_elems (stack (snd (pop array_in_object)) 0) = [RecData 1]"
  by (simp add: array_in_object_def consumer_simps event_simps c_str_literal_b numeral_2_eq_2)

text \<open>The claim C2 says that the handle of the new record itself becomes the child, also
  in an object frame. Here the array \<open>[2,3]\<close> is popped inside an object: the array is
  record 0, and the child of the object frame is the handle of record 1, the key-value
  pair of \<open>b\<close> and the array.\<close>

theorem pop_in_object_wraps_child:
  "fst (pop array_in_object) \<and> stack_ptr (snd (pop array_in_object)) = 0 \<and>
   records (db (snd (pop array_in_object)))
     = [\<lparr>meta_array = True, meta_object = False, meta_doc = False, meta_param = False,
          rfields = [IntData 2, IntData 3]\<rparr>,
        \<lparr>meta_array = False, meta_object = False, meta_doc = False, meta_param = False,
          rfields = [StrData ''b'', RecData 0]\<rparr>] \<and>
   se_elems (stack (snd (pop array_in_object)) 0) = [RecData 1] \<and>
   se_elems (stack (snd (pop array_in_object)) 0) \<noteq> [RecData 0]"
  using array_in_object_pop by simp

theorem pop_hands_child_to_parent_witness:
  "se_elems (stack (snd (pop array_in_object)) 0) = [RecData 1] \<and>
   rfields (records (db (snd (pop array_in_object))) ! 1) = [StrData ''b'', RecData 0] \<and>
   document (snd (pop array_open)) = Some 0"
proof -
  have a: "pop array_in_object = (True, snd (pop array_in_object))"
    using array_in_object_pop by (cases "pop array_in_object") simp
  have k: "c_str (se_last_key (stack array_in_object 0)) = ''b''"
    by (simp add: array_in_object_def consumer_simps event_simps c_str_literal_b)
  have b: "pop array_open = (True, snd (pop array_open))" "stack_ptr array_open = 0"
    "records (db array_open) = []"
    by (simp_all add: array_open_def consumer_simps event_simps)
  from pop_hands_child_to_parent [of array_in_object "snd (pop array_in_object)"]
    pop_hands_child_to_parent [of array_open "snd (pop array_open)"]
    a b k array_in_object_pop
  show ?thesis by (simp add: MAX_DEPTH_def)
qed

section \<open>Materializing a value\<close>

lemma extends_refl: "extends d d"
  by (simp add: extends_def)

lemma extends_trans: "extends a b \<Longrightarrow> extends b c \<Longrightarrow> extends a c"
  by (auto simp add: extends_def)

lemma extends_nth: "extends d d' \<Longrightarrow> r < length (records d) \<Longrightarrow> records d' ! r = records d ! r"
  by (auto simp add: extends_def nth_append)

lemma extends_length: "extends d d' \<Longrightarrow> length (records d) \<le> length (records d')"
  by (auto simp add: extends_def)

lemma repr_extends:
  "repr d g v \<Longrightarrow> extends d d' \<Longrightarrow> repr d' g v"
  "repr_pair d g kv \<Longrightarrow> extends d d' \<Longrightarrow> repr_pair d' g kv"
proof (induction rule: repr_repr_pair.inducts)
  case (repr_arr r vs)
  then have "list_all2 (repr d') (rfields (records d ! r)) vs"
    by (simp add: list_all2_conv_all_nth)
  with repr_arr show ?case
    using extends_nth [of d d' r] extends_length [of d d']
    by (auto intro!: repr_repr_pair.repr_arr)
next
  case (repr_obj r kvs)
  then have "list_all2 (repr_pair d') (rfields (records d ! r)) kvs"
    by (simp add: list_all2_conv_all_nth)
  with repr_obj show ?case
    using extends_nth [of d d' r] extends_length [of d d']
    by (auto intro!: repr_repr_pair.repr_obj)
next
  case (repr_kv p k g v)
  with extends_nth [of d d' p] extends_length [of d d'] show ?case
    by (auto intro!: repr_repr_pair.repr_kv)
qed (auto intro: repr_repr_pair.intros)

lemma wg_set_field_ok:
  assumes "wg_set_field d r i v = (0, d')"
  shows "r < length (records d) \<and> 0 \<le> i \<and> nat i < length (rfields (records d ! r)) \<and>
         records d' = (records d)[r := (records d ! r)\<lparr>rfields := (rfields (records d ! r))[nat i := v]\<rparr>]"
  using assms
  by (auto simp add: wg_set_field_def refused_def split: if_splits list.splits bool.splits)

lemma set_fields_ok:
  "set_fields d r i xs = (True, d') \<Longrightarrow> r < length (records d) \<Longrightarrow> 0 \<le> i \<Longrightarrow>
     nat i + length xs = length (rfields (records d ! r)) \<Longrightarrow>
     records d' = (records d)[r := (records d ! r)
        \<lparr>rfields := take (nat i) (rfields (records d ! r)) @ xs\<rparr>]"
proof (induction xs arbitrary: d i)
  case Nil
  then show ?case by (simp add: list_update_same_conv)
next
  case (Cons x xs)
  obtain rc d1 where s: "wg_set_field d r i x = (rc, d1)" by (cases "wg_set_field d r i x")
  with Cons.prems(1) have rc: "rc = 0" and rest: "set_fields d1 r (i + 1) xs = (True, d')"
    by (auto split: if_splits)
  note w = wg_set_field_ok [OF s [unfolded rc]]
  let ?old = "rfields (records d ! r)"
  have r1: "r < length (records d1)" using w by simp
  have f1: "rfields (records d1 ! r) = ?old[nat i := x]" using w by simp
  have n1: "nat (i + 1) + length xs = length (rfields (records d1 ! r))"
    using Cons.prems f1 by (simp add: nat_add_distrib)
  have i1: "0 \<le> i + 1" using Cons.prems by simp
  from Cons.IH [OF rest r1 i1 n1]
  have "records d' = (records d1)[r := (records d1 ! r)
        \<lparr>rfields := take (nat (i + 1)) (rfields (records d1 ! r)) @ xs\<rparr>]" .
  moreover have "take (nat (i + 1)) (?old[nat i := x]) = take (nat i) ?old @ [x]"
    using w Cons.prems(3) by (simp add: nat_add_distrib take_Suc_conv_app_nth)
  ultimately show ?case using w f1 by simp
qed

lemma pop_record:
  assumes "0 \<le> stack_ptr ctx" and "pop ctx = (True, ctx')"
    and "se_size (stack ctx (stack_ptr ctx)) = int (length (se_elems (stack ctx (stack_ptr ctx))))"
  shows "\<exists>d2. records d2 = records (db ctx) @
             [\<lparr>meta_array = (se_type (stack ctx (stack_ptr ctx)) = ARRAY),
               meta_object = (se_type (stack ctx (stack_ptr ctx)) \<noteq> ARRAY),
               meta_doc = (stack_ptr ctx - 1 < 0), meta_param = isparam ctx,
               rfields = se_elems (stack ctx (stack_ptr ctx))\<rparr>] \<and>
           (if stack_ptr ctx - 1 < 0
            then ctx' = ctx\<lparr>stack_ptr := stack_ptr ctx - 1, db := d2,
                   document := Some (length (records (db ctx))),
                   stack := (stack ctx)(stack_ptr ctx :=
                     (stack ctx (stack_ptr ctx))\<lparr>se_elems := [], se_size := 0\<rparr>)\<rparr>
            else add_literal (ctx\<lparr>stack_ptr := stack_ptr ctx - 1, db := d2,
                   stack := (stack ctx)(stack_ptr ctx :=
                     (stack ctx (stack_ptr ctx))\<lparr>se_elems := [], se_size := 0\<rparr>)\<rparr>)
                   (RecData (length (records (db ctx)))) = (True, ctx'))"
proof -
  let ?e = "stack ctx (stack_ptr ctx)"
  let ?new = "\<lparr>meta_array = (se_type ?e = ARRAY), meta_object = (se_type ?e \<noteq> ARRAY),
               meta_doc = (stack_ptr ctx - 1 < 0), meta_param = isparam ctx,
               rfields = replicate (length (se_elems ?e)) NullData\<rparr>"
  obtain rec d1 where cr: "(if se_type ?e = ARRAY
          then wg_create_array (db ctx) (se_size ?e) (stack_ptr ctx - 1 < 0) (isparam ctx)
          else wg_create_object (db ctx) (se_size ?e) (stack_ptr ctx - 1 < 0) (isparam ctx))
        = (rec, d1)"
    by fastforce
  from assms(2) pop_unfold_refused [OF assms(1), of d1] cr obtain r where r: "rec = Some r"
    by (cases rec) auto
  have "new_record (db ctx) ?new = (Some r, d1)"
    using cr r assms(3) by (auto simp add: wg_create_array_def wg_create_object_def split: if_splits)
  from new_record_Some [OF this]
  have rn: "r = length (records (db ctx))" and d1: "records d1 = records (db ctx) @ [?new]"
    by simp_all
  obtain ok d2 where sf: "set_fields d1 r 0 (se_elems ?e) = (ok, d2)"
    by fastforce
  from pop_unfold [OF assms(1) cr [unfolded r] sf] assms(2)
  have ok: ok by (auto split: if_splits)
  have "records d2 = (records d1)[r := (records d1 ! r)
        \<lparr>rfields := take (nat 0) (rfields (records d1 ! r)) @ se_elems ?e\<rparr>]"
    by (rule set_fields_ok [OF sf [unfolded ok [THEN eqTrueI]]]) (simp_all add: rn d1)
  then have d2: "records d2 = records (db ctx) @ [?new\<lparr>rfields := se_elems ?e\<rparr>]"
    by (simp add: rn d1)
  from pop_unfold [OF assms(1) cr [unfolded r] sf] assms(2) ok rn d2
  show ?thesis
    by (intro exI [of _ d2]) (auto split: if_splits)
qed

lemma grown_transfer:
  assumes "grown c ctx' v" and "stack_ptr c = stack_ptr ctx"
    and "\<forall>i. i \<le> stack_ptr ctx \<longrightarrow> stack c i = stack ctx i"
    and "document c = document ctx" and "isparam c = isparam ctx"
    and "extends (db ctx) (db c)"
  shows "grown ctx ctx' v"
  using assms extends_trans [of "db ctx" "db c" "db ctx'"]
  by (auto simp add: grown_def)

lemma add_literal_grown:
  assumes "add_literal ctx g = (True, ctx')" and "repr (db ctx) g v"
  shows "grown ctx ctx' v"
proof (cases "se_type (stack ctx (stack_ptr ctx)) = ARRAY")
  case True
  from add_literal_array [OF assms(1) True] assms(2) True show ?thesis
    by (auto simp add: grown_def child_of_def extends_refl)
next
  case False
  from add_literal_object [OF assms(1) False] obtain d2 where
    d2: "records d2 = records (db ctx) @
             [\<lparr>meta_array = False, meta_object = False, meta_doc = False,
               meta_param = isparam ctx,
               rfields = [StrData (c_str (se_last_key (stack ctx (stack_ptr ctx)))), g]\<rparr>]"
    and c': "ctx' = ctx\<lparr>db := d2, heap := tl (heap ctx),
            stack := (stack ctx)(stack_ptr ctx := (stack ctx (stack_ptr ctx))
              \<lparr>se_elems := se_elems (stack ctx (stack_ptr ctx))
                   @ [RecData (length (records (db ctx)))],
               se_size := se_size (stack ctx (stack_ptr ctx)) + 1\<rparr>)\<rparr>"
    by blast
  have e: "extends (db ctx) d2" using d2 by (simp add: extends_def)
  have "repr d2 g v" using repr_extends(1) [OF assms(2) e] .
  then have "repr_pair d2 (RecData (length (records (db ctx))))
      (c_str (se_last_key (stack ctx (stack_ptr ctx))), v)"
    using d2 by (intro repr_kv) simp_all
  with c' e False show ?thesis
    by (auto simp add: grown_def child_of_def)
qed

lemma grown_after_encode:
  assumes "grown (ctx\<lparr>db := d1\<rparr>) ctx' v" and "records d1 = records (db ctx)"
  shows "grown ctx ctx' v"
  using assms by (simp add: grown_def extends_def)

lemma literal_grown:
  "parse_json_cb ctx (fst (integer_event i)) (snd (integer_event i)) = (True, ctx')
     \<Longrightarrow> grown ctx ctx' (JInt i)"
  "parse_json_cb ctx (fst (double_event x)) (snd (double_event x)) = (True, ctx')
     \<Longrightarrow> grown ctx ctx' (JFloat x)"
  "parse_json_cb ctx (fst (string_event s)) (snd (string_event s)) = (True, ctx')
     \<Longrightarrow> grown ctx ctx' (JStr (c_str s))"
proof -
  assume a: "parse_json_cb ctx (fst (integer_event i)) (snd (integer_event i)) = (True, ctx')"
  obtain v d1 where e: "wg_encode_int (db ctx) i = (v, d1)" by fastforce
  from a e have nv: "v \<noteq> WG_ILLEGAL" and al: "add_literal (ctx\<lparr>db := d1\<rparr>) v = (True, ctx')"
    by (auto simp add: parse_json_cb_def integer_event_def no_value_def split: if_splits)
  from e nv have v: "v = IntData i" and r: "records d1 = records (db ctx)"
    by (auto simp add: wg_encode_int_def refused_def split: list.splits bool.splits if_splits)
  have "repr (db (ctx\<lparr>db := d1\<rparr>)) v (JInt i)" by (simp add: v repr_int)
  from grown_after_encode [OF add_literal_grown [OF al this] r]
  show "grown ctx ctx' (JInt i)" .
next
  assume a: "parse_json_cb ctx (fst (double_event x)) (snd (double_event x)) = (True, ctx')"
  obtain v d1 where e: "wg_encode_double (db ctx) x = (v, d1)" by fastforce
  from a e have nv: "v \<noteq> WG_ILLEGAL" and al: "add_literal (ctx\<lparr>db := d1\<rparr>) v = (True, ctx')"
    by (auto simp add: parse_json_cb_def double_event_def no_value_def split: if_splits)
  from e nv have v: "v = DoubleData x" and r: "records d1 = records (db ctx)"
    by (auto simp add: wg_encode_double_def refused_def split: list.splits bool.splits if_splits)
  have "repr (db (ctx\<lparr>db := d1\<rparr>)) v (JFloat x)" by (simp add: v repr_float)
  from grown_after_encode [OF add_literal_grown [OF al this] r]
  show "grown ctx ctx' (JFloat x)" .
next
  assume a: "parse_json_cb ctx (fst (string_event s)) (snd (string_event s)) = (True, ctx')"
  obtain v d1 where e: "wg_encode_str (db ctx) s = (v, d1)" by fastforce
  from a e have nv: "v \<noteq> WG_ILLEGAL" and al: "add_literal (ctx\<lparr>db := d1\<rparr>) v = (True, ctx')"
    by (auto simp add: parse_json_cb_def string_event_def no_value_def split: if_splits)
  from e nv have v: "v = StrData (c_str s)" and r: "records d1 = records (db ctx)"
    by (auto simp add: wg_encode_str_def refused_def split: list.splits bool.splits if_splits)
  have "repr (db (ctx\<lparr>db := d1\<rparr>)) v (JStr (c_str s))" by (simp add: v repr_str)
  from grown_after_encode [OF add_literal_grown [OF al this] r]
  show "grown ctx ctx' (JStr (c_str s))" .
qed

lemma call_back_append_True:
  assumes "call_back cb ctx (xs @ ys) = (True, ctx')"
  obtains c1 where "call_back cb ctx xs = (True, c1)" and "call_back cb c1 ys = (True, ctx')"
proof -
  obtain ok c1 where a: "call_back cb ctx xs = (ok, c1)" by fastforce
  with assms have "ok" by (cases ok) (simp_all add: call_back_append)
  with a assms that show ?thesis by (simp add: call_back_append)
qed

lemma call_back_Cons_True:
  assumes "call_back cb ctx (ev # evs) = (True, ctx')"
  obtains c1 where "cb ctx (fst ev) (snd ev) = (True, c1)" and "call_back cb c1 evs = (True, ctx')"
proof -
  obtain ok c1 where a: "cb ctx (fst ev) (snd ev) = (ok, c1)" by fastforce
  with assms have "ok" by (cases ok) simp_all
  with a assms that show ?thesis by simp
qed

lemma children_array:
  assumes IH: "\<And>v ctx ctx'. v \<in> set vs \<Longrightarrow> 0 \<le> stack_ptr ctx \<Longrightarrow>
      call_back parse_json_cb ctx (events v) = (True, ctx') \<Longrightarrow> grown ctx ctx' (stored v)"
  shows "0 \<le> stack_ptr ctx \<Longrightarrow> se_type (stack ctx (stack_ptr ctx)) = ARRAY \<Longrightarrow>
      call_back parse_json_cb ctx (concat (map events vs)) = (True, ctx') \<Longrightarrow>
      filled repr ctx ctx' (map stored vs)"
  using IH
proof (induction vs arbitrary: ctx)
  case Nil
  then have "ctx' = ctx" by simp
  then show ?case
    unfolding filled_def
    by (intro conjI exI [of _ "[]"] exI [of _ "se_last_key (stack ctx (stack_ptr ctx))"])
      (simp_all add: extends_refl)
next
  case (Cons v vs)
  from Cons.prems(3) obtain c1 where
    v: "call_back parse_json_cb ctx (events v) = (True, c1)"
    and r: "call_back parse_json_cb c1 (concat (map events vs)) = (True, ctx')"
    by (auto elim: call_back_append_True)
  have g: "grown ctx c1 (stored v)"
    using Cons.prems(4) [OF _ Cons.prems(1) v] by simp
  let ?p = "stack_ptr ctx"
  let ?e = "stack ctx ?p"
  from g obtain g1 where
    sp: "stack_ptr c1 = ?p" and doc: "document c1 = document ctx" and
    par: "isparam c1 = isparam ctx" and ex: "extends (db ctx) (db c1)" and
    below: "\<forall>i. i < ?p \<longrightarrow> stack c1 i = stack ctx i" and
    top: "stack c1 ?p = ?e\<lparr>se_elems := se_elems ?e @ [g1], se_size := se_size ?e + 1\<rparr>" and
    ch: "child_of (db c1) ?e g1 (stored v)"
    by (auto simp add: grown_def)
  have t1: "se_type (stack c1 (stack_ptr c1)) = ARRAY" using Cons.prems(2) sp top by simp
  have p1: "0 \<le> stack_ptr c1" using Cons.prems(1) sp by simp
  have "filled repr c1 ctx' (map stored vs)"
    using Cons.IH [OF p1 t1 r] Cons.prems(4) by simp
  then obtain gs lk where
    sp2: "stack_ptr ctx' = stack_ptr c1" and doc2: "document ctx' = document c1" and
    par2: "isparam ctx' = isparam c1" and ex2: "extends (db c1) (db ctx')" and
    below2: "\<forall>i. i < stack_ptr c1 \<longrightarrow> stack ctx' i = stack c1 i" and
    top2: "stack ctx' (stack_ptr c1) = (stack c1 (stack_ptr c1))
               \<lparr>se_elems := se_elems (stack c1 (stack_ptr c1)) @ gs, se_last_key := lk,
                se_size := se_size (stack c1 (stack_ptr c1)) + int (length gs)\<rparr>" and
    all: "list_all2 (repr (db ctx')) gs (map stored vs)"
    by (auto simp add: filled_def)
  have "repr (db c1) g1 (stored v)" using ch Cons.prems(2) by (simp add: child_of_def)
  then have r1: "repr (db ctx') g1 (stored v)" using ex2 by (rule repr_extends(1))
  have top3: "stack ctx' ?p = ?e\<lparr>se_elems := se_elems ?e @ (g1 # gs), se_last_key := lk,
                se_size := se_size ?e + int (length (g1 # gs))\<rparr>"
    using top2 sp top by simp
  have all3: "list_all2 (repr (db ctx')) (g1 # gs) (map stored (v # vs))"
    using r1 all by simp
  show ?case
    unfolding filled_def
    using sp sp2 doc doc2 par par2 extends_trans [OF ex ex2] below below2 top3 all3
    by (intro conjI exI [of _ "g1 # gs"] exI [of _ lk]) simp_all
qed

lemma add_key_True:
  assumes "add_key ctx k = (True, ctx')"
  shows "ctx' = ctx\<lparr>stack := (stack ctx)(stack_ptr ctx := (stack ctx (stack_ptr ctx))
           \<lparr>se_last_key := (strncpy k 80)[79 := NUL]\<rparr>)\<rparr>"
  using assms by (auto simp add: add_key_def Let_def split: if_splits)

lemma children_object:
  assumes IH: "\<And>kv ctx ctx'. kv \<in> set kvs \<Longrightarrow> 0 \<le> stack_ptr ctx \<Longrightarrow>
      call_back parse_json_cb ctx (events (snd kv)) = (True, ctx') \<Longrightarrow>
      grown ctx ctx' (stored (snd kv))"
  shows "0 \<le> stack_ptr ctx \<Longrightarrow> se_type (stack ctx (stack_ptr ctx)) \<noteq> ARRAY \<Longrightarrow>
      call_back parse_json_cb ctx
        (concat (map (\<lambda>kv. key_event (fst kv) # events (snd kv)) kvs)) = (True, ctx') \<Longrightarrow>
      filled repr_pair ctx ctx' (map (\<lambda>kv. (take 79 (c_str (fst kv)), stored (snd kv))) kvs)"
  using IH
proof (induction kvs arbitrary: ctx)
  case Nil
  then have "ctx' = ctx" by simp
  then show ?case
    unfolding filled_def
    by (intro conjI exI [of _ "[]"] exI [of _ "se_last_key (stack ctx (stack_ptr ctx))"])
      (simp_all add: extends_refl)
next
  case (Cons kv kvs)
  let ?p = "stack_ptr ctx"
  let ?e = "stack ctx ?p"
  let ?buf = "(strncpy (fst kv) 80)[79 := NUL]"
  from Cons.prems(3) have
    "call_back parse_json_cb ctx (key_event (fst kv) # (events (snd kv)
       @ concat (map (\<lambda>kv. key_event (fst kv) # events (snd kv)) kvs))) = (True, ctx')"
    by simp
  then obtain ck where
    k: "parse_json_cb ctx (fst (key_event (fst kv))) (snd (key_event (fst kv))) = (True, ck)"
    and r0: "call_back parse_json_cb ck (events (snd kv)
       @ concat (map (\<lambda>kv. key_event (fst kv) # events (snd kv)) kvs)) = (True, ctx')"
    by (rule call_back_Cons_True)
  from r0 obtain c1 where
    v: "call_back parse_json_cb ck (events (snd kv)) = (True, c1)"
    and r: "call_back parse_json_cb c1
       (concat (map (\<lambda>kv. key_event (fst kv) # events (snd kv)) kvs)) = (True, ctx')"
    by (auto elim: call_back_append_True)
  from k have "add_key ctx (fst kv) = (True, ck)"
    by (simp add: parse_json_cb_def key_event_def no_value_def)
  from add_key_True [OF this]
  have ck: "ck = ctx\<lparr>stack := (stack ctx)(?p := ?e\<lparr>se_last_key := ?buf\<rparr>)\<rparr>" .
  have pk: "0 \<le> stack_ptr ck" using Cons.prems(1) ck by simp
  have g: "grown ck c1 (stored (snd kv))"
    using Cons.prems(4) [OF _ pk v] by simp
  from g ck obtain g1 where
    sp: "stack_ptr c1 = ?p" and doc: "document c1 = document ctx" and
    par: "isparam c1 = isparam ctx" and ex: "extends (db ctx) (db c1)" and
    below: "\<forall>i. i < ?p \<longrightarrow> stack c1 i = stack ctx i" and
    top: "stack c1 ?p = ?e\<lparr>se_last_key := ?buf, se_elems := se_elems ?e @ [g1],
            se_size := se_size ?e + 1\<rparr>" and
    ch: "child_of (db c1) (?e\<lparr>se_last_key := ?buf\<rparr>) g1 (stored (snd kv))"
    by (auto simp add: grown_def)
  have t1: "se_type (stack c1 (stack_ptr c1)) \<noteq> ARRAY" using Cons.prems(2) sp top by simp
  have p1: "0 \<le> stack_ptr c1" using Cons.prems(1) sp by simp
  have "filled repr_pair c1 ctx' (map (\<lambda>kv. (take 79 (c_str (fst kv)), stored (snd kv))) kvs)"
    using Cons.IH [OF p1 t1 r] Cons.prems(4) by simp
  then obtain gs lk where
    sp2: "stack_ptr ctx' = stack_ptr c1" and doc2: "document ctx' = document c1" and
    par2: "isparam ctx' = isparam c1" and ex2: "extends (db c1) (db ctx')" and
    below2: "\<forall>i. i < stack_ptr c1 \<longrightarrow> stack ctx' i = stack c1 i" and
    top2: "stack ctx' (stack_ptr c1) = (stack c1 (stack_ptr c1))
               \<lparr>se_elems := se_elems (stack c1 (stack_ptr c1)) @ gs, se_last_key := lk,
                se_size := se_size (stack c1 (stack_ptr c1)) + int (length gs)\<rparr>" and
    all: "list_all2 (repr_pair (db ctx')) gs
            (map (\<lambda>kv. (take 79 (c_str (fst kv)), stored (snd kv))) kvs)"
    by (auto simp add: filled_def)
  have "repr_pair (db c1) g1 (take 79 (c_str (fst kv)), stored (snd kv))"
    using ch Cons.prems(2) by (simp add: child_of_def c_str_last_key_buffer)
  then have r1: "repr_pair (db ctx') g1 (take 79 (c_str (fst kv)), stored (snd kv))"
    using ex2 by (rule repr_extends(2))
  have top3: "stack ctx' ?p = ?e\<lparr>se_elems := se_elems ?e @ (g1 # gs), se_last_key := lk,
                se_size := se_size ?e + int (length (g1 # gs))\<rparr>"
    using top2 sp top by simp
  have all3: "list_all2 (repr_pair (db ctx')) (g1 # gs)
      (map (\<lambda>kv. (take 79 (c_str (fst kv)), stored (snd kv))) (kv # kvs))"
    using r1 all by simp
  show ?case
    unfolding filled_def
    using sp sp2 doc doc2 par par2 extends_trans [OF ex ex2] below below2 top3 all3
    by (intro conjI exI [of _ "g1 # gs"] exI [of _ lk]) simp_all
qed

lemma push_True:
  assumes "push ctx t = (True, cp)"
  shows "cp = ctx\<lparr>stack_ptr := stack_ptr ctx + 1,
              stack := (stack ctx)(stack_ptr ctx + 1 :=
                (stack ctx (stack_ptr ctx + 1))\<lparr>se_size := 0, se_type := t, se_elems := []\<rparr>)\<rparr>"
  using assms by (simp add: push_result split: if_splits)

text \<open>A container: the frame is pushed, filled with its children, and popped.\<close>

lemma container_closed:
  fixes R :: "database \<Rightarrow> gint \<Rightarrow> 'a \<Rightarrow> bool"
  assumes q: "- 1 \<le> stack_ptr ctx"
    and push: "push ctx T = (True, cp)"
    and body: "filled R cp cb xs"
    and pop: "pop cb = (True, ctx')"
    and mk: "\<And>d r. r < length (records d) \<Longrightarrow> meta_array (records d ! r) = (T = ARRAY) \<Longrightarrow>
        meta_object (records d ! r) = (T \<noteq> ARRAY) \<Longrightarrow>
        list_all2 (R d) (rfields (records d ! r)) xs \<Longrightarrow> repr d (RecData r) t"
    and ext: "\<And>d d' g x. R d g x \<Longrightarrow> extends d d' \<Longrightarrow> R d' g x"
  shows "if stack_ptr ctx = - 1
         then stack_ptr ctx' = - 1 \<and> isparam ctx' = isparam ctx \<and>
              extends (db ctx) (db ctx') \<and>
              (\<exists>r. document ctx' = Some r \<and> length (records (db ctx)) \<le> r \<and>
                   r < length (records (db ctx')) \<and>
                   meta_doc (records (db ctx') ! r) \<and>
                   meta_param (records (db ctx') ! r) = isparam ctx \<and>
                   repr (db ctx') (RecData r) t)
         else grown ctx ctx' t"
proof -
  let ?q = "stack_ptr ctx"
  note cp = push_True [OF push]
  from body obtain gs lk where
    sp0: "stack_ptr cb = stack_ptr cp" and doc0: "document cb = document cp" and
    par0: "isparam cb = isparam cp" and ex0: "extends (db cp) (db cb)" and
    below0: "\<forall>i. i < stack_ptr cp \<longrightarrow> stack cb i = stack cp i" and
    top0: "stack cb (stack_ptr cp) = (stack cp (stack_ptr cp))
               \<lparr>se_elems := se_elems (stack cp (stack_ptr cp)) @ gs, se_last_key := lk,
                se_size := se_size (stack cp (stack_ptr cp)) + int (length gs)\<rparr>" and
    all: "list_all2 (R (db cb)) gs xs"
    unfolding filled_def by blast
  have sp: "stack_ptr cb = ?q + 1" and doc: "document cb = document ctx" and
    par: "isparam cb = isparam ctx" and ex: "extends (db ctx) (db cb)"
    using sp0 doc0 par0 ex0 cp by simp_all
  have below: "\<forall>i. i < ?q + 1 \<longrightarrow> stack cb i = stack ctx i"
    using below0 cp by simp
  have top: "stack cb (?q + 1) = (stack ctx (?q + 1))
            \<lparr>se_size := int (length gs), se_type := T, se_elems := gs, se_last_key := lk\<rparr>"
    using top0 cp by simp
  have p0: "0 \<le> stack_ptr cb" using q sp by simp
  have sz: "se_size (stack cb (stack_ptr cb)) = int (length (se_elems (stack cb (stack_ptr cb))))"
    using sp top by simp
  from pop_record [OF p0 pop sz] obtain d2 where
    d2raw: "records d2 = records (db cb) @
             [\<lparr>meta_array = (se_type (stack cb (stack_ptr cb)) = ARRAY),
               meta_object = (se_type (stack cb (stack_ptr cb)) \<noteq> ARRAY),
               meta_doc = (stack_ptr cb - 1 < 0), meta_param = isparam cb,
               rfields = se_elems (stack cb (stack_ptr cb))\<rparr>]"
    and resraw: "if stack_ptr cb - 1 < 0
            then ctx' = cb\<lparr>stack_ptr := stack_ptr cb - 1, db := d2,
                   document := Some (length (records (db cb))),
                   stack := (stack cb)(stack_ptr cb :=
                     (stack cb (stack_ptr cb))\<lparr>se_elems := [], se_size := 0\<rparr>)\<rparr>
            else add_literal (cb\<lparr>stack_ptr := stack_ptr cb - 1, db := d2,
                   stack := (stack cb)(stack_ptr cb :=
                     (stack cb (stack_ptr cb))\<lparr>se_elems := [], se_size := 0\<rparr>)\<rparr>)
                   (RecData (length (records (db cb)))) = (True, ctx')"
    by blast
  have d2: "records d2 = records (db cb) @
             [\<lparr>meta_array = (T = ARRAY), meta_object = (T \<noteq> ARRAY),
               meta_doc = (?q < 0), meta_param = isparam cb, rfields = gs\<rparr>]"
    using d2raw [unfolded sp] top by simp
  have res: "if ?q < 0
            then ctx' = cb\<lparr>stack_ptr := ?q, db := d2,
                   document := Some (length (records (db cb))),
                   stack := (stack cb)(?q + 1 :=
                     (stack cb (?q + 1))\<lparr>se_elems := [], se_size := 0\<rparr>)\<rparr>
            else add_literal (cb\<lparr>stack_ptr := ?q, db := d2,
                   stack := (stack cb)(?q + 1 :=
                     (stack cb (?q + 1))\<lparr>se_elems := [], se_size := 0\<rparr>)\<rparr>)
                   (RecData (length (records (db cb)))) = (True, ctx')"
    using resraw [unfolded sp] by (auto split: if_splits)
  have e2: "extends (db cb) d2" using d2 by (simp add: extends_def)
  have "list_all2 (R d2) gs xs"
    using all ext [OF _ e2] by (simp add: list_all2_conv_all_nth)
  then have rp: "repr d2 (RecData (length (records (db cb)))) t"
    using d2 by (intro mk) simp_all
  show ?thesis
  proof (cases "?q = - 1")
    case True
    with res have c': "ctx' = cb\<lparr>stack_ptr := ?q, db := d2,
                   document := Some (length (records (db cb))),
                   stack := (stack cb)(?q + 1 :=
                     (stack cb (?q + 1))\<lparr>se_elems := [], se_size := 0\<rparr>)\<rparr>"
      by simp
    have "length (records (db ctx)) \<le> length (records (db cb))"
      using ex by (rule extends_length)
    with True c' d2 rp par extends_trans [OF ex e2] show ?thesis
      by (auto simp add: nth_append)
  next
    case False
    with q have q0: "0 \<le> ?q" by simp
    let ?c3 = "cb\<lparr>stack_ptr := ?q, db := d2,
                   stack := (stack cb)(?q + 1 :=
                     (stack cb (?q + 1))\<lparr>se_elems := [], se_size := 0\<rparr>)\<rparr>"
    from res q0 have al: "add_literal ?c3 (RecData (length (records (db cb)))) = (True, ctx')"
      by simp
    have "repr (db ?c3) (RecData (length (records (db cb)))) t" using rp by simp
    from add_literal_grown [OF al this] have g: "grown ?c3 ctx' t" .
    have "grown ctx ctx' t"
      by (rule grown_transfer [OF g])
        (use below doc par extends_trans [OF ex e2] in simp_all)
    with False show ?thesis by simp
  qed
qed

lemma snd_in_snds: "snd kv \<in> Basic_BNFs.snds kv"
  by (cases kv) (simp add: snds.simps)

lemma value_grown:
  "0 \<le> stack_ptr ctx \<Longrightarrow> call_back parse_json_cb ctx (events t) = (True, ctx')
     \<Longrightarrow> grown ctx ctx' (stored t)"
proof (induction t arbitrary: ctx ctx')
  case (JInt i)
  then have "call_back parse_json_cb ctx [integer_event i] = (True, ctx')" by simp
  then have "parse_json_cb ctx (fst (integer_event i)) (snd (integer_event i)) = (True, ctx')"
    by (auto split: prod.splits bool.splits)
  then show ?case by (simp add: literal_grown)
next
  case (JFloat x)
  then have "call_back parse_json_cb ctx [double_event x] = (True, ctx')" by simp
  then have "parse_json_cb ctx (fst (double_event x)) (snd (double_event x)) = (True, ctx')"
    by (auto split: prod.splits bool.splits)
  then show ?case by (simp add: literal_grown)
next
  case (JStr s)
  then have "call_back parse_json_cb ctx [string_event s] = (True, ctx')" by simp
  then have "parse_json_cb ctx (fst (string_event s)) (snd (string_event s)) = (True, ctx')"
    by (auto split: prod.splits bool.splits)
  then show ?case by (simp add: literal_grown)
next
  case (JArr vs)
  from JArr.prems(2) have "call_back parse_json_cb ctx ((JSON_T_ARRAY_BEGIN, no_value)
      # (concat (map events vs) @ [(JSON_T_ARRAY_END, no_value)])) = (True, ctx')"
    by simp
  then obtain cp where
    p: "parse_json_cb ctx (fst (JSON_T_ARRAY_BEGIN, no_value))
          (snd (JSON_T_ARRAY_BEGIN, no_value)) = (True, cp)" and
    r: "call_back parse_json_cb cp (concat (map events vs) @ [(JSON_T_ARRAY_END, no_value)])
          = (True, ctx')"
    by (rule call_back_Cons_True)
  from r obtain cb where
    b: "call_back parse_json_cb cp (concat (map events vs)) = (True, cb)" and
    e: "call_back parse_json_cb cb [(JSON_T_ARRAY_END, no_value)] = (True, ctx')"
    by (auto elim: call_back_append_True)
  from p have push: "push ctx ARRAY = (True, cp)" by (simp add: parse_json_cb_def)
  from e have pop: "pop cb = (True, ctx')"
    by (auto simp add: parse_json_cb_def split: prod.splits bool.splits)
  note cp = push_True [OF push]
  have "filled repr cp cb (map stored vs)"
    by (rule children_array [OF JArr.IH _ _ b]) (use cp JArr.prems(1) in simp_all)
  from container_closed [OF _ push this pop, of "stored (JArr vs)"] JArr.prems(1)
  show ?case by (auto intro: repr_arr repr_extends(1))
next
  case (JObj kvs)
  from JObj.prems(2) have "call_back parse_json_cb ctx ((JSON_T_OBJECT_BEGIN, no_value)
      # (concat (map (\<lambda>kv. key_event (fst kv) # events (snd kv)) kvs)
             @ [(JSON_T_OBJECT_END, no_value)])) = (True, ctx')"
    by simp
  then obtain cp where
    p: "parse_json_cb ctx (fst (JSON_T_OBJECT_BEGIN, no_value))
          (snd (JSON_T_OBJECT_BEGIN, no_value)) = (True, cp)" and
    r: "call_back parse_json_cb cp
          (concat (map (\<lambda>kv. key_event (fst kv) # events (snd kv)) kvs)
             @ [(JSON_T_OBJECT_END, no_value)]) = (True, ctx')"
    by (rule call_back_Cons_True)
  from r obtain cb where
    b: "call_back parse_json_cb cp
          (concat (map (\<lambda>kv. key_event (fst kv) # events (snd kv)) kvs)) = (True, cb)" and
    e: "call_back parse_json_cb cb [(JSON_T_OBJECT_END, no_value)] = (True, ctx')"
    by (auto elim: call_back_append_True)
  from p have push: "push ctx OBJECT = (True, cp)" by (simp add: parse_json_cb_def)
  from e have pop: "pop cb = (True, ctx')"
    by (auto simp add: parse_json_cb_def split: prod.splits bool.splits)
  note cp = push_True [OF push]
  have "filled repr_pair cp cb (map (\<lambda>kv. (take 79 (c_str (fst kv)), stored (snd kv))) kvs)"
    by (rule children_object [OF JObj.IH [OF _ snd_in_snds] _ _ b])
      (use cp JObj.prems(1) in simp_all)
  from container_closed [OF _ push this pop, of "stored (JObj kvs)"] JObj.prems(1)
  show ?case by (auto intro: repr_obj repr_extends(2))
qed

lemma document_materialized:
  assumes "stack_ptr ctx = - 1" and "is_container t"
    and "call_back parse_json_cb ctx (events t) = (True, ctx')"
  shows "stack_ptr ctx' = - 1 \<and> isparam ctx' = isparam ctx \<and> extends (db ctx) (db ctx') \<and>
         (\<exists>r. document ctx' = Some r \<and> length (records (db ctx)) \<le> r \<and>
              r < length (records (db ctx')) \<and> meta_doc (records (db ctx') ! r) \<and>
              meta_param (records (db ctx') ! r) = isparam ctx \<and>
              repr (db ctx') (RecData r) (stored t))"
proof (cases t)
  case (JArr vs)
  from assms(3) JArr have "call_back parse_json_cb ctx ((JSON_T_ARRAY_BEGIN, no_value)
      # (concat (map events vs) @ [(JSON_T_ARRAY_END, no_value)])) = (True, ctx')"
    by simp
  then obtain cp where
    p: "parse_json_cb ctx (fst (JSON_T_ARRAY_BEGIN, no_value))
          (snd (JSON_T_ARRAY_BEGIN, no_value)) = (True, cp)" and
    r: "call_back parse_json_cb cp (concat (map events vs) @ [(JSON_T_ARRAY_END, no_value)])
          = (True, ctx')"
    by (rule call_back_Cons_True)
  from r obtain cb where
    b: "call_back parse_json_cb cp (concat (map events vs)) = (True, cb)" and
    e: "call_back parse_json_cb cb [(JSON_T_ARRAY_END, no_value)] = (True, ctx')"
    by (auto elim: call_back_append_True)
  from p have push: "push ctx ARRAY = (True, cp)" by (simp add: parse_json_cb_def)
  from e have pop: "pop cb = (True, ctx')"
    by (auto simp add: parse_json_cb_def split: prod.splits bool.splits)
  note cp = push_True [OF push]
  have "filled repr cp cb (map stored vs)"
    by (rule children_array [OF value_grown _ _ b]) (use cp assms(1) in simp_all)
  from container_closed [OF _ push this pop, of "stored (JArr vs)"] assms(1) JArr
  show ?thesis by (auto intro: repr_arr repr_extends(1))
next
  case (JObj kvs)
  from assms(3) JObj have "call_back parse_json_cb ctx ((JSON_T_OBJECT_BEGIN, no_value)
      # (concat (map (\<lambda>kv. key_event (fst kv) # events (snd kv)) kvs)
             @ [(JSON_T_OBJECT_END, no_value)])) = (True, ctx')"
    by simp
  then obtain cp where
    p: "parse_json_cb ctx (fst (JSON_T_OBJECT_BEGIN, no_value))
          (snd (JSON_T_OBJECT_BEGIN, no_value)) = (True, cp)" and
    r: "call_back parse_json_cb cp
          (concat (map (\<lambda>kv. key_event (fst kv) # events (snd kv)) kvs)
             @ [(JSON_T_OBJECT_END, no_value)]) = (True, ctx')"
    by (rule call_back_Cons_True)
  from r obtain cb where
    b: "call_back parse_json_cb cp
          (concat (map (\<lambda>kv. key_event (fst kv) # events (snd kv)) kvs)) = (True, cb)" and
    e: "call_back parse_json_cb cb [(JSON_T_OBJECT_END, no_value)] = (True, ctx')"
    by (auto elim: call_back_append_True)
  from p have push: "push ctx OBJECT = (True, cp)" by (simp add: parse_json_cb_def)
  from e have pop: "pop cb = (True, ctx')"
    by (auto simp add: parse_json_cb_def split: prod.splits bool.splits)
  note cp = push_True [OF push]
  have "filled repr_pair cp cb (map (\<lambda>kv. (take 79 (c_str (fst kv)), stored (snd kv))) kvs)"
    by (rule children_object [OF value_grown _ _ b]) (use cp assms(1) in simp_all)
  from container_closed [OF _ push this pop, of "stored (JObj kvs)"] assms(1) JObj
  show ?thesis by (auto intro: repr_obj repr_extends(2))
qed (use assms(2) in \<open>simp_all add: is_container_def\<close>)

lemma run_json_parser_events:
  assumes "token_events tok (char_signed env) buf = Some evs"
  shows "fst (run_json_parser tok env d buf cb p doc)
           = (if fst (call_back cb (setup_context env d p doc) evs) then 0 else - 2) \<and>
         fst (snd (snd (run_json_parser tok env d buf cb p doc)))
           = db (snd (call_back cb (setup_context env d p doc) evs)) \<and>
         snd (snd (snd (run_json_parser tok env d buf cb p doc)))
           = document (snd (call_back cb (setup_context env d p doc) evs))"
proof -
  from assms obtain jc' where
    t: "tokenize tok (char_signed env) (new_parser tok (MAX_DEPTH - 1) True) buf = Some (evs, jc')"
    and dn: "parser_done tok jc'"
    by (auto simp add: token_events_def split: option.splits prod.splits if_splits)
  from feed_tokenize [OF t, of cb "setup_context env d p doc" 0] dn show ?thesis
    by (cases "feed tok cb (char_signed env) (new_parser tok (MAX_DEPTH - 1) True) (setup_context env d p doc) 0 buf")
      (auto simp add: run_json_parser_def)
qed

lemma document_parsed:
  assumes "token_events tok (char_signed env) buf = Some (events t)" and "is_container t"
    and "run_json_parser tok env d buf parse_json_cb p doc0 = (0, err, d', doc)"
  shows "extends d d' \<and>
         (\<exists>r. doc = Some r \<and> length (records d) \<le> r \<and> r < length (records d') \<and>
              meta_doc (records d' ! r) \<and> meta_param (records d' ! r) = p \<and>
              repr d' (RecData r) (stored t))"
proof -
  let ?c = "setup_context env d p doc0"
  note r = run_json_parser_events [OF assms(1), of d parse_json_cb p doc0]
  obtain ok ctx' where cb: "call_back parse_json_cb ?c (events t) = (ok, ctx')" by fastforce
  with r assms(3) have ok: ok and d': "d' = db ctx'" and doc: "doc = document ctx'"
    by (auto split: if_splits)
  have "stack_ptr ?c = - 1" by (simp add: setup_context_def)
  from document_materialized [OF this assms(2) cb [unfolded ok [THEN eqTrueI]]] d' doc
  show ?thesis by (simp add: setup_context_def)
qed

lemma literal_repr: "is_literal v \<Longrightarrow> repr d g (stored v) \<Longrightarrow> g = encoded v"
  by (cases v) (auto elim: repr.cases)

lemma literals_repr:
  "list_all is_literal vs \<Longrightarrow> list_all2 (repr d) gs (map stored vs) \<Longrightarrow> gs = map encoded vs"
proof (induction vs arbitrary: gs)
  case Nil
  then show ?case by simp
next
  case (Cons v vs)
  then show ?case by (auto simp add: list_all2_Cons2 literal_repr)
qed

section \<open>Arrays of literals, and objects\<close>

text \<open>
  C3, as the code has it. The literal values that the consumer encodes are the integers,
  the floats and the strings. When the tokenizer reports for the buffer the events of an
  array of N such literals and the document driver answers 0, the document slot holds an
  array record of length N whose field i is the encoding of the i-th literal, for every
  i below N.
\<close>

theorem array_of_literals:
  assumes "token_events tok (char_signed env) buf = Some (events (JArr lits))"
    and "list_all is_literal lits"
    and "wg_parse_json_document tok env d buf = (0, err, d', doc)"
  shows "\<exists>h. doc = Some h \<and> is_schema_array d' h \<and> \<not> is_schema_object d' h \<and>
           is_schema_document d' h \<and>
           wg_get_record_len d' h = int (length lits) \<and>
           rfields (records d' ! h) = map encoded lits \<and>
           (\<forall>i. i < length lits \<longrightarrow> wg_get_field d' h (int i) = encoded (lits ! i))"
proof -
  have c: "is_container (JArr lits)" by (simp add: is_container_def)
  from document_parsed [OF assms(1) c assms(3) [unfolded wg_parse_json_document_def]]
  obtain r where doc: "doc = Some r" and r: "r < length (records d')"
    and md: "meta_doc (records d' ! r)"
    and rp: "repr d' (RecData r) (JArr (map stored lits))"
    by auto
  from rp have ma: "meta_array (records d' ! r)" and mo: "\<not> meta_object (records d' ! r)"
    and all: "list_all2 (repr d') (rfields (records d' ! r)) (map stored lits)"
    by (auto elim: repr.cases)
  from literals_repr [OF assms(2) all] have f: "rfields (records d' ! r) = map encoded lits" .
  show ?thesis
    using doc r md ma mo f
    by (intro exI [of _ r])
      (simp add: is_schema_array_def is_schema_object_def is_schema_document_def
        wg_get_record_len_def wg_get_field_def)
qed

lemma c_str_literal_a: "c_str ''a'' = ''a''"
  by (simp add: c_str_def NUL_def)

lemma pair_repr:
  assumes "repr_pair d g (k, stored v)" and "is_literal v"
  shows "\<exists>p. g = RecData p \<and> p < length (records d) \<and> rfields (records d ! p) = [StrData k, encoded v]"
  using assms by (auto elim!: repr_pair.cases dest: literal_repr)


lemma c_str_literal_x: "c_str ''x'' = ''x''"
  by (simp add: c_str_def NUL_def)

theorem array_of_literals_witness:
  "wg_parse_json_document json_tokenizer plain_env empty_db (''[1,'' @ quoted ''x'' @ '',3]'')
     = (0, [], \<lparr>records = [\<lparr>meta_array = True, meta_object = False, meta_doc = True,
          meta_param = False, rfields = [IntData 1, StrData ''x'', IntData 3]\<rparr>],
          refusals = []\<rparr>, Some 0) \<and>
   (\<exists>h. Some (0 :: nat) = Some h \<and>
      wg_get_record_len \<lparr>records = [\<lparr>meta_array = True, meta_object = False, meta_doc = True,
          meta_param = False, rfields = [IntData 1, StrData ''x'', IntData 3]\<rparr>],
          refusals = []\<rparr> h = 3 \<and>
      wg_get_field \<lparr>records = [\<lparr>meta_array = True, meta_object = False, meta_doc = True,
          meta_param = False, rfields = [IntData 1, StrData ''x'', IntData 3]\<rparr>],
          refusals = []\<rparr> h 1 = StrData ''x'')"
proof -
  let ?buf = "''[1,'' @ quoted ''x'' @ '',3]''"
  let ?lits = "[JInt 1, JStr ''x'', JInt 3]"
  let ?D = "\<lparr>records = [\<lparr>meta_array = True, meta_object = False, meta_doc = True,
          meta_param = False, rfields = [IntData 1, StrData ''x'', IntData 3]\<rparr>],
          refusals = []\<rparr>"
  have te: "token_events json_tokenizer (char_signed plain_env) ?buf = Some (events (JArr ?lits))"
    by (simp add: token_events_def quoted_def json_tokenizer_simps event_simps MAX_DEPTH_def)
  have lit: "list_all is_literal ?lits" by simp
  have run: "wg_parse_json_document json_tokenizer plain_env empty_db ?buf = (0, [], ?D, Some 0)"
    by (simp add: wg_parse_json_document_def run_json_parser_def quoted_def
        json_tokenizer_simps event_simps consumer_simps c_str_literal_x
        numeral_3_eq_3)
  from array_of_literals [OF te lit run] obtain h where
    h: "Some (0 :: nat) = Some h" and l: "wg_get_record_len ?D h = int (length ?lits)"
    and f: "\<forall>i. i < length ?lits \<longrightarrow> wg_get_field ?D h (int i) = encoded (?lits ! i)"
    by blast
  have "wg_get_field ?D h (int 1) = encoded (?lits ! 1)"
    by (rule f [rule_format]) simp
  then have "wg_get_field ?D h 1 = StrData ''x''" by (simp add: c_str_literal_x)
  with run h l show ?thesis by auto
qed

text \<open>The claim C3 says that an array of N literal values gives a record of length N.
  Here the array \<open>[true,1]\<close> of two literal values is parsed with the result 0, and the
  array record of the document has one field, the integer 1: the literal \<open>true\<close> leaves
  no field.\<close>

theorem literal_true_leaves_no_field:
  "wg_parse_json_document json_tokenizer plain_env empty_db ''[true,1]''
     = (0, [], \<lparr>records = [\<lparr>meta_array = True, meta_object = False, meta_doc = True,
          meta_param = False, rfields = [IntData 1]\<rparr>], refusals = []\<rparr>, Some 0) \<and>
   wg_get_record_len \<lparr>records = [\<lparr>meta_array = True, meta_object = False, meta_doc = True,
          meta_param = False, rfields = [IntData 1]\<rparr>], refusals = []\<rparr> 0 = 1"
  by (simp add: wg_parse_json_document_def run_json_parser_def
      json_tokenizer_simps event_simps consumer_simps wg_get_record_len_def)



section \<open>The printer writes the text of the value\<close>

lemma for_fields_indexed:
  assumes "\<And>j f'. j < length xs \<Longrightarrow> body (i + int j) f' = Some (0, f' @ g (i + int j) (xs ! j), [])"
  shows "for_fields body [i .. i + int (length xs) - 1] f = Some (0, f @ indexed_concat g i xs, [])"
  using assms
proof (induction xs arbitrary: i f)
  case Nil
  then show ?case by simp
next
  case (Cons x xs)
  have u: "[i .. i + int (length (x # xs)) - 1] = i # [i + 1 .. (i + 1) + int (length xs) - 1]"
    by (simp add: upto_rec1)
  have b: "body i f = Some (0, f @ g i x, [])"
    using Cons.prems [of 0 f] by simp
  have r: "for_fields body [i + 1 .. (i + 1) + int (length xs) - 1] (f @ g i x)
      = Some (0, (f @ g i x) @ indexed_concat g (i + 1) xs, [])"
  proof (rule Cons.IH)
    fix j f'
    assume "j < length xs"
    then show "body (i + 1 + int j) f' = Some (0, f' @ g (i + 1 + int j) (xs ! j), [])"
      using Cons.prems [of "Suc j" f'] by (simp add: ac_simps)
  qed
  show ?case unfolding u using b r by simp
qed

lemma for_fields_indexed0:
  assumes "\<And>j f'. j < length xs \<Longrightarrow> body (int j) f' = Some (0, f' @ g (int j) (xs ! j), [])"
  shows "for_fields body [0 .. int (length xs) - 1] f = Some (0, f @ indexed_concat g 0 xs, [])"
  using for_fields_indexed [of xs body 0 g f] assms by simp

lemma foldr_max_ge: "x \<in> set xs \<Longrightarrow> x \<le> foldr max xs (0 :: nat)"
  by (induction xs) (auto simp add: max_def)

lemma depth_elem: "v \<in> set vs \<Longrightarrow> Suc (depth v) \<le> depth (JArr vs)"
  using foldr_max_ge [of "depth v" "map depth vs"] by simp

lemma depth_member: "kv \<in> set kvs \<Longrightarrow> Suc (depth (snd kv)) \<le> depth (JObj kvs)"
  using foldr_max_ge [of "depth (snd kv)" "map (\<lambda>kv. depth (snd kv)) kvs"] by simp

text \<open>What the loop of an array writes for one element.\<close>

lemma print_element:
  assumes "repr d g v" and "printable v"
    and "\<And>r. g = RecData r \<Longrightarrow>
       pretty_print_json wg_snprint_value n d f r indent i 0 = Some (0, f @ render v indent i 0, [])"
  shows "(let enc = g; type = wg_get_encoded_type d enc in
              if type = WG_RECORDTYPE then
                (case wg_decode_record d enc of
                   None \<Rightarrow> None
                 | Some r \<Rightarrow>
                     (case pretty_print_json wg_snprint_value n d f r indent i 0 of
                        None \<Rightarrow> None
                      | Some (rc, f'', err) \<Rightarrow>
                          if rc \<noteq> 0 then Some (-1, f'', err) else Some (0, f'', err)))
              else if type = WG_STRTYPE then
                (case wg_decode_str d enc of
                   None \<Rightarrow> None
                 | Some s \<Rightarrow> Some (0, f @ comma_text i @ quoted s, []))
              else
                Some (0, f @ comma_text i @ wg_snprint_value d enc, []))
         = Some (0, f @ render v indent i 0, [])"
  using assms
  by (cases rule: repr.cases)
    (simp_all add: wg_get_encoded_type_def wg_decode_record_def wg_decode_str_def
      wg_snprint_value_def newline_text_def)

lemma print_array:
  assumes r: "r < length (records d)" "\<not> meta_object (records d ! r)" "meta_array (records d ! r)"
    and all: "list_all2 (\<lambda>g v. repr d g v \<and> (\<forall>r'. g = RecData r' \<longrightarrow>
         (\<forall>f i. pretty_print_json wg_snprint_value n d f r' indent i 0
            = Some (0, f @ render v indent i 0, [])))) (rfields (records d ! r)) vs"
    and pr: "list_all printable vs"
  shows "pretty_print_json wg_snprint_value (Suc n) d f r indent comma newline
           = Some (0, f @ render (JArr vs) indent comma newline, [])"
proof -
  let ?fs = "rfields (records d ! r)"
  have len: "length ?fs = length vs" using all by (rule list_all2_lengthD)
  let ?body = "\<lambda>i f'.
              let enc = wg_get_field d r i; type = wg_get_encoded_type d enc in
              if type = WG_RECORDTYPE then
                (case wg_decode_record d enc of
                   None \<Rightarrow> None
                 | Some r \<Rightarrow>
                     (case pretty_print_json wg_snprint_value n d f' r indent i 0 of
                        None \<Rightarrow> None
                      | Some (rc, f'', err) \<Rightarrow>
                          if rc \<noteq> 0 then Some (-1, f'', err) else Some (0, f'', err)))
              else if type = WG_STRTYPE then
                (case wg_decode_str d enc of
                   None \<Rightarrow> None
                 | Some s \<Rightarrow> Some (0, f' @ comma_text i @ quoted s, []))
              else
                Some (0, f' @ comma_text i @ wg_snprint_value d enc, [])"
  have each: "?body (int j) f' = Some (0, f' @ render (vs ! j) indent (int j) 0, [])"
    if j: "j < length vs" for j f'
  proof -
    from all j have rp: "repr d (?fs ! j) (vs ! j)"
      and ih: "\<And>r'. ?fs ! j = RecData r' \<Longrightarrow>
         pretty_print_json wg_snprint_value n d f' r' indent (int j) 0
            = Some (0, f' @ render (vs ! j) indent (int j) 0, [])"
      by (simp_all add: list_all2_conv_all_nth)
    from pr j have p: "printable (vs ! j)" by (simp add: list_all_length)
    have g: "wg_get_field d r (int j) = ?fs ! j"
      using r j len by (simp add: wg_get_field_def)
    show ?thesis
      using print_element [OF rp p ih] by (simp add: g)
  qed
  have loop: "for_fields ?body [0 .. int (length vs) - 1] (f @ comma_text comma @ ''['')
      = Some (0, (f @ comma_text comma @ ''['')
          @ indexed_concat (\<lambda>i v. render v indent i 0) 0 vs, [])"
    by (rule for_fields_indexed0) (rule each)
  have rl: "wg_get_record_len d r = int (length vs)"
    using r len by (simp add: wg_get_record_len_def)
  show ?thesis
    using r loop by (simp add: is_schema_object_def is_schema_array_def rl)
qed

lemma print_object:
  assumes r: "r < length (records d)" "meta_object (records d ! r)"
    and all: "list_all2 (\<lambda>g kv. repr_pair d g kv \<and> (\<forall>p. g = RecData p \<longrightarrow>
         (\<forall>f i. pretty_print_json wg_snprint_value n d f p (indent + 1) i 1
            = Some (0, f @ OUT_INDENT (indent + 1) @ comma_text i @ quoted (fst kv) @ '': ''
                 @ render (snd kv) (indent + 1) 0 1, [])))) (rfields (records d ! r)) kvs"
  shows "pretty_print_json wg_snprint_value (Suc n) d f r indent comma newline
           = Some (0, f @ render (JObj kvs) indent comma newline, [])"
proof -
  let ?fs = "rfields (records d ! r)"
  have len: "length ?fs = length kvs" using all by (rule list_all2_lengthD)
  let ?body = "\<lambda>i f'.
              let enc = wg_get_field d r i in
              if wg_get_encoded_type d enc \<noteq> WG_RECORDTYPE
              then Some (fst (show_json_error ''Object had an element of invalid type''), f',
                     [snd (show_json_error ''Object had an element of invalid type'')])
              else
                (case wg_decode_record d enc of
                   None \<Rightarrow> None
                 | Some r \<Rightarrow>
                     (case pretty_print_json wg_snprint_value n d f' r (indent + 1) i 1 of
                        None \<Rightarrow> None
                      | Some (rc, f'', err) \<Rightarrow>
                          if rc \<noteq> 0 then Some (-1, f'', err) else Some (0, f'', err)))"
  let ?g = "\<lambda>i kv. OUT_INDENT (indent + 1) @ comma_text i @ quoted (fst kv) @ '': ''
               @ render (snd kv) (indent + 1) 0 1"
  have each: "?body (int j) f' = Some (0, f' @ ?g (int j) (kvs ! j), [])"
    if j: "j < length kvs" for j f'
  proof -
    from all j have rp: "repr_pair d (?fs ! j) (kvs ! j)"
      and ih: "\<And>p. ?fs ! j = RecData p \<Longrightarrow>
         pretty_print_json wg_snprint_value n d f' p (indent + 1) (int j) 1
            = Some (0, f' @ ?g (int j) (kvs ! j), [])"
      by (simp_all add: list_all2_conv_all_nth)
    from rp obtain p where p: "?fs ! j = RecData p" by (auto elim: repr_pair.cases)
    have g: "wg_get_field d r (int j) = RecData p"
      using r j len p by (simp add: wg_get_field_def)
    show ?thesis
      using ih [OF p] by (simp add: g wg_get_encoded_type_def wg_decode_record_def)
  qed
  have loop: "for_fields ?body [0 .. int (length kvs) - 1] (f @ comma_text comma @ ''{'' @ [CHR 0x0A])
      = Some (0, (f @ comma_text comma @ ''{'' @ [CHR 0x0A]) @ indexed_concat ?g 0 kvs, [])"
    by (rule for_fields_indexed0) (rule each)
  have rl: "wg_get_record_len d r = int (length kvs)"
    using r len by (simp add: wg_get_record_len_def)
  show ?thesis
    using r loop by (simp add: is_schema_object_def rl)
qed

lemma print_pair:
  assumes p: "p < length (records d)" "\<not> meta_object (records d ! p)"
      "\<not> meta_array (records d ! p)" "rfields (records d ! p) = [StrData k, g]"
    and rp: "repr d g v" and pr: "printable v"
    and ih: "\<And>r f1. g = RecData r \<Longrightarrow>
       pretty_print_json wg_snprint_value n d f1 r indent 0 1 = Some (0, f1 @ render v indent 0 1, [])"
  shows "pretty_print_json wg_snprint_value (Suc n) d f p indent comma newline
           = Some (0, f @ OUT_INDENT indent @ comma_text comma @ quoted k @ '': ''
                @ render v indent 0 1, [])"
  using rp pr p ih
  by (cases rule: repr.cases)
    (simp_all add: is_schema_object_def is_schema_array_def wg_get_field_def
      WG_SCHEMA_KEY_OFFSET_def WG_SCHEMA_VALUE_OFFSET_def wg_get_encoded_type_def
      wg_decode_str_def wg_decode_record_def wg_snprint_value_def comma_text_def
      newline_text_def)

lemma print_repr:
  "repr d g t \<Longrightarrow> printable t \<longrightarrow>
     (\<forall>r n f indent comma newline. g = RecData r \<longrightarrow> 2 * depth t \<le> n \<longrightarrow>
        pretty_print_json wg_snprint_value n d f r indent comma newline
          = Some (0, f @ render t indent comma newline, []))"
  "repr_pair d g kv \<Longrightarrow> printable (snd kv) \<longrightarrow>
     (\<forall>p n f indent comma newline. g = RecData p \<longrightarrow> 2 * depth (snd kv) < n \<longrightarrow>
        pretty_print_json wg_snprint_value n d f p indent comma newline
          = Some (0, f @ OUT_INDENT indent @ comma_text comma @ quoted (fst kv) @ '': ''
               @ render (snd kv) indent 0 1, []))"
proof (induction rule: repr_repr_pair.inducts)
  case (repr_arr r vs)
  show ?case
  proof (intro impI allI)
    fix r' n f indent comma newline
    assume pr: "printable (JArr vs)" and g: "RecData r = RecData r'"
      and n: "2 * depth (JArr vs) \<le> n"
    from n obtain n' where n': "n = Suc n'" by (cases n) simp_all
    have "list_all2 (\<lambda>g v. repr d g v \<and> (\<forall>r'. g = RecData r' \<longrightarrow>
         (\<forall>f i. pretty_print_json wg_snprint_value n' d f r' indent i 0
            = Some (0, f @ render v indent i 0, [])))) (rfields (records d ! r)) vs"
      unfolding list_all2_conv_all_nth
    proof (intro conjI allI impI)
      show "length (rfields (records d ! r)) = length vs"
        using repr_arr(4) by (rule list_all2_lengthD)
    next
      fix j
      assume j: "j < length (rfields (records d ! r))"
      with repr_arr(4) show "repr d (rfields (records d ! r) ! j) (vs ! j)"
        by (simp add: list_all2_conv_all_nth)
    next
      fix j r'' f i
      assume j: "j < length (rfields (records d ! r))"
        and e: "rfields (records d ! r) ! j = RecData r''"
      from repr_arr(4) j have jv: "j < length vs" by (auto dest: list_all2_lengthD)
      then have "vs ! j \<in> set vs" by simp
      from depth_elem [OF this] n n' have d: "2 * depth (vs ! j) \<le> n'" by simp
      from pr jv have p: "printable (vs ! j)" by (simp add: list_all_length)
      from repr_arr(4) j p e d
      show "pretty_print_json wg_snprint_value n' d f r'' indent i 0
            = Some (0, f @ render (vs ! j) indent i 0, [])"
        by (simp add: list_all2_conv_all_nth)
    qed
    note la = this
    from pr have lp: "list_all printable vs" by simp
    from g have rr: "r' = r" by simp
    show "pretty_print_json wg_snprint_value n d f r' indent comma newline
          = Some (0, f @ render (JArr vs) indent comma newline, [])"
      unfolding n' rr by (rule print_array [OF repr_arr(1,2,3) la lp])
  qed
next
  case (repr_obj r kvs)
  show ?case
  proof (intro impI allI)
    fix r' n f indent comma newline
    assume pr: "printable (JObj kvs)" and g: "RecData r = RecData r'"
      and n: "2 * depth (JObj kvs) \<le> n"
    from n obtain n' where n': "n = Suc n'" by (cases n) simp_all
    have "list_all2 (\<lambda>g kv. repr_pair d g kv \<and> (\<forall>p. g = RecData p \<longrightarrow>
         (\<forall>f i. pretty_print_json wg_snprint_value n' d f p (indent + 1) i 1
            = Some (0, f @ OUT_INDENT (indent + 1) @ comma_text i @ quoted (fst kv) @ '': ''
                 @ render (snd kv) (indent + 1) 0 1, [])))) (rfields (records d ! r)) kvs"
      unfolding list_all2_conv_all_nth
    proof (intro conjI allI impI)
      show "length (rfields (records d ! r)) = length kvs"
        using repr_obj(3) by (rule list_all2_lengthD)
    next
      fix j
      assume j: "j < length (rfields (records d ! r))"
      with repr_obj(3) show "repr_pair d (rfields (records d ! r) ! j) (kvs ! j)"
        by (simp add: list_all2_conv_all_nth)
    next
      fix j p f i
      assume j: "j < length (rfields (records d ! r))"
        and e: "rfields (records d ! r) ! j = RecData p"
      from repr_obj(3) j have jv: "j < length kvs" by (auto dest: list_all2_lengthD)
      then have "kvs ! j \<in> set kvs" by simp
      from depth_member [OF this] n n' have d: "2 * depth (snd (kvs ! j)) < n'" by simp
      from pr jv have p: "printable (snd (kvs ! j))" by (simp add: list_all_length)
      from repr_obj(3) j p e d
      show "pretty_print_json wg_snprint_value n' d f p (indent + 1) i 1
            = Some (0, f @ OUT_INDENT (indent + 1) @ comma_text i @ quoted (fst (kvs ! j))
                 @ '': '' @ render (snd (kvs ! j)) (indent + 1) 0 1, [])"
        by (simp add: list_all2_conv_all_nth)
    qed
    note la = this
    from g have rr: "r' = r" by simp
    show "pretty_print_json wg_snprint_value n d f r' indent comma newline
          = Some (0, f @ render (JObj kvs) indent comma newline, [])"
      unfolding n' rr by (rule print_object [OF repr_obj(1,2) la])
  qed
next
  case (repr_kv p k g v)
  show ?case
  proof (intro impI allI)
    fix p' n f indent comma newline
    assume pr: "printable (snd (k, v))" and e: "RecData p = RecData p'"
      and n: "2 * depth (snd (k, v)) < n"
    from n obtain n' where n': "n = Suc n'" by (cases n) simp_all
    have ih: "pretty_print_json wg_snprint_value n' d f1 r indent 0 1
        = Some (0, f1 @ render v indent 0 1, [])" if "g = RecData r" for r f1
      using repr_kv(6) pr that n n' by simp
    from pr have pv: "printable v" by simp
    from e have pp: "p' = p" by simp
    have "pretty_print_json wg_snprint_value (Suc n') d f p indent comma newline
          = Some (0, f @ OUT_INDENT indent @ comma_text comma @ quoted k @ '': ''
               @ render v indent 0 1, [])"
      by (rule print_pair [OF repr_kv(1,2,3,4,5) pv ih])
    then show "pretty_print_json wg_snprint_value n d f p' indent comma newline
          = Some (0, f @ OUT_INDENT indent @ comma_text comma @ quoted (fst (k, v)) @ '': ''
               @ render (snd (k, v)) indent 0 1, [])"
      unfolding n' pp fst_conv snd_conv .
  qed
qed simp_all

section \<open>A parse that nothing refuses succeeds\<close>

lemma add_literal_calm:
  assumes "calm ctx" and "0 \<le> stack_ptr ctx" and "stack_ptr ctx < MAX_DEPTH"
  shows "\<exists>ctx'. add_literal ctx v = (True, ctx') \<and> calm ctx'"
  using assms
  by (auto simp add: add_literal_def add_elem_def malloc_def wg_encode_str_def
      wg_create_kvpair_def new_record_def refused_def calm_def Let_def)

lemma literal_calm:
  assumes "calm ctx" and "0 \<le> stack_ptr ctx" and "stack_ptr ctx < MAX_DEPTH"
  shows "\<exists>ctx'. parse_json_cb ctx (fst (integer_event i)) (snd (integer_event i)) = (True, ctx')
           \<and> calm ctx'"
    and "\<exists>ctx'. parse_json_cb ctx (fst (double_event x)) (snd (double_event x)) = (True, ctx')
           \<and> calm ctx'"
    and "\<exists>ctx'. parse_json_cb ctx (fst (string_event s)) (snd (string_event s)) = (True, ctx')
           \<and> calm ctx'"
proof -
  have c: "calm (ctx\<lparr>db := db ctx\<rparr>)" using assms(1) by simp
  from assms(1) have r: "refusals (db ctx) = []" by (simp add: calm_def)
  show "\<exists>ctx'. parse_json_cb ctx (fst (integer_event i)) (snd (integer_event i)) = (True, ctx')
           \<and> calm ctx'"
    using add_literal_calm [OF assms, of "IntData i"] r
    by (simp add: parse_json_cb_def integer_event_def no_value_def wg_encode_int_def refused_def)
  show "\<exists>ctx'. parse_json_cb ctx (fst (double_event x)) (snd (double_event x)) = (True, ctx')
           \<and> calm ctx'"
    using add_literal_calm [OF assms, of "DoubleData x"] r
    by (simp add: parse_json_cb_def double_event_def no_value_def wg_encode_double_def refused_def)
  show "\<exists>ctx'. parse_json_cb ctx (fst (string_event s)) (snd (string_event s)) = (True, ctx')
           \<and> calm ctx'"
    using add_literal_calm [OF assms, of "StrData (c_str s)"] r
    by (simp add: parse_json_cb_def string_event_def no_value_def wg_encode_str_def refused_def)
qed

lemma set_fields_calm:
  "refusals d = [] \<Longrightarrow> r < length (records d) \<Longrightarrow> 0 \<le> i \<Longrightarrow>
     nat i + length xs \<le> length (rfields (records d ! r)) \<Longrightarrow>
     \<exists>d'. set_fields d r i xs = (True, d') \<and> refusals d' = []"
proof (induction xs arbitrary: d i)
  case Nil
  then show ?case by simp
next
  case (Cons x xs)
  let ?d1 = "d\<lparr>records := (records d)[r :=
               (records d ! r)\<lparr>rfields := (rfields (records d ! r))[nat i := x]\<rparr>]\<rparr>"
  have s: "wg_set_field d r i x = (0, ?d1)"
    using Cons.prems by (simp add: wg_set_field_def refused_def)
  have "\<exists>d'. set_fields ?d1 r (i + 1) xs = (True, d') \<and> refusals d' = []"
    using Cons.prems by (intro Cons.IH) (simp_all add: nat_add_distrib)
  with s show ?case by simp
qed

lemma pop_calm:
  assumes "calm ctx" and "0 \<le> stack_ptr ctx" and "stack_ptr ctx \<le> MAX_DEPTH"
    and "se_size (stack ctx (stack_ptr ctx)) = int (length (se_elems (stack ctx (stack_ptr ctx))))"
  shows "\<exists>ctx'. pop ctx = (True, ctx') \<and> calm ctx'"
proof -
  let ?e = "stack ctx (stack_ptr ctx)"
  let ?new = "\<lparr>meta_array = (se_type ?e = ARRAY), meta_object = (se_type ?e \<noteq> ARRAY),
               meta_doc = (stack_ptr ctx - 1 < 0), meta_param = isparam ctx,
               rfields = replicate (length (se_elems ?e)) NullData\<rparr>"
  let ?d1 = "(db ctx)\<lparr>records := records (db ctx) @ [?new]\<rparr>"
  from assms(1) have r: "refusals (db ctx) = []" and h: "heap ctx = []"
    by (simp_all add: calm_def)
  have cr: "(if se_type ?e = ARRAY
          then wg_create_array (db ctx) (se_size ?e) (stack_ptr ctx - 1 < 0) (isparam ctx)
          else wg_create_object (db ctx) (se_size ?e) (stack_ptr ctx - 1 < 0) (isparam ctx))
        = (Some (length (records (db ctx))), ?d1)"
    using assms(4) r
    by (simp add: wg_create_array_def wg_create_object_def new_record_accepts)
  have "\<exists>d'. set_fields ?d1 (length (records (db ctx))) 0 (se_elems ?e) = (True, d')
      \<and> refusals d' = []"
    using r by (intro set_fields_calm) simp_all
  then obtain d2 where sf: "set_fields ?d1 (length (records (db ctx))) 0 (se_elems ?e) = (True, d2)"
    and r2: "refusals d2 = []"
    by blast
  note u = pop_unfold [OF assms(2) cr sf]
  show ?thesis
  proof (cases "stack_ptr ctx - 1 < 0")
    case True
    with u r2 h show ?thesis by (simp add: calm_def)
  next
    case False
    let ?c3 = "ctx\<lparr>stack_ptr := stack_ptr ctx - 1, db := d2,
              stack := (stack ctx)(stack_ptr ctx :=
                (stack ctx (stack_ptr ctx))\<lparr>se_elems := [], se_size := 0\<rparr>)\<rparr>"
    have "\<exists>ctx'. add_literal ?c3 (RecData (length (records (db ctx)))) = (True, ctx') \<and> calm ctx'"
      using False assms(3) r2 h by (intro add_literal_calm) (simp_all add: calm_def)
    with u False show ?thesis by simp
  qed
qed

lemma children_array_calm:
  assumes IH: "\<And>v ctx. v \<in> set vs \<Longrightarrow> calm ctx \<Longrightarrow> 0 \<le> stack_ptr ctx \<Longrightarrow>
      stack_ptr ctx + int (depth v) < MAX_DEPTH \<Longrightarrow>
      \<exists>ctx'. call_back parse_json_cb ctx (events v) = (True, ctx') \<and> calm ctx'"
  shows "calm ctx \<Longrightarrow> 0 \<le> stack_ptr ctx \<Longrightarrow>
      (\<forall>v \<in> set vs. stack_ptr ctx + int (depth v) < MAX_DEPTH) \<Longrightarrow>
      \<exists>ctx'. call_back parse_json_cb ctx (concat (map events vs)) = (True, ctx') \<and> calm ctx'"
  using IH
proof (induction vs arbitrary: ctx)
  case Nil
  then show ?case by simp
next
  case (Cons v vs)
  from Cons.prems(4) [of v ctx] Cons.prems(1,2,3) obtain c1 where
    v: "call_back parse_json_cb ctx (events v) = (True, c1)" and c1: "calm c1"
    by auto
  from value_grown [OF Cons.prems(2) v] have sp: "stack_ptr c1 = stack_ptr ctx"
    by (simp add: grown_def)
  have "\<exists>ctx'. call_back parse_json_cb c1 (concat (map events vs)) = (True, ctx') \<and> calm ctx'"
    using Cons.prems(2,3,4) sp c1 by (intro Cons.IH) simp_all
  with v show ?case by (simp add: call_back_append)
qed

lemma children_object_calm:
  assumes IH: "\<And>kv ctx. kv \<in> set kvs \<Longrightarrow> calm ctx \<Longrightarrow> 0 \<le> stack_ptr ctx \<Longrightarrow>
      stack_ptr ctx + int (depth (snd kv)) < MAX_DEPTH \<Longrightarrow>
      \<exists>ctx'. call_back parse_json_cb ctx (events (snd kv)) = (True, ctx') \<and> calm ctx'"
  shows "calm ctx \<Longrightarrow> 0 \<le> stack_ptr ctx \<Longrightarrow> stack_ptr ctx < MAX_DEPTH \<Longrightarrow>
      (\<forall>kv \<in> set kvs. stack_ptr ctx + int (depth (snd kv)) < MAX_DEPTH) \<Longrightarrow>
      \<exists>ctx'. call_back parse_json_cb ctx
         (concat (map (\<lambda>kv. key_event (fst kv) # events (snd kv)) kvs)) = (True, ctx')
        \<and> calm ctx'"
  using IH
proof (induction kvs arbitrary: ctx)
  case Nil
  then show ?case by simp
next
  case (Cons kv kvs)
  let ?ck = "ctx\<lparr>stack := (stack ctx)(stack_ptr ctx := (stack ctx (stack_ptr ctx))
           \<lparr>se_last_key := (strncpy (fst kv) 80)[79 := NUL]\<rparr>)\<rparr>"
  have k: "parse_json_cb ctx (fst (key_event (fst kv))) (snd (key_event (fst kv))) = (True, ?ck)"
    using Cons.prems(2,3)
    by (simp add: parse_json_cb_def key_event_def no_value_def add_key_def Let_def)
  have ck: "calm ?ck" "0 \<le> stack_ptr ?ck" "stack_ptr ?ck = stack_ptr ctx"
    using Cons.prems(1,2) by (simp_all add: calm_def)
  from Cons.prems(5) [of kv ?ck] ck Cons.prems(4) obtain c1 where
    v: "call_back parse_json_cb ?ck (events (snd kv)) = (True, c1)" and c1: "calm c1"
    by auto
  from value_grown [OF ck(2) v] have sp: "stack_ptr c1 = stack_ptr ctx"
    by (simp add: grown_def)
  have "\<exists>ctx'. call_back parse_json_cb c1
         (concat (map (\<lambda>kv. key_event (fst kv) # events (snd kv)) kvs)) = (True, ctx')
        \<and> calm ctx'"
    using Cons.prems(2,3,4,5) sp c1 by (intro Cons.IH) simp_all
  with v k show ?case by (simp add: call_back_append)
qed

lemma filled_size:
  assumes "filled R cp cb xs"
    and "se_elems (stack cp (stack_ptr cp)) = []" and "se_size (stack cp (stack_ptr cp)) = 0"
  shows "stack_ptr cb = stack_ptr cp \<and>
     se_size (stack cb (stack_ptr cb)) = int (length (se_elems (stack cb (stack_ptr cb))))"
  using assms by (auto simp add: filled_def)

lemma accepted:
  "calm ctx \<Longrightarrow> - 1 \<le> stack_ptr ctx \<Longrightarrow> is_container t \<or> 0 \<le> stack_ptr ctx \<Longrightarrow>
     stack_ptr ctx + int (depth t) < MAX_DEPTH \<Longrightarrow>
     \<exists>ctx'. call_back parse_json_cb ctx (events t) = (True, ctx') \<and> calm ctx'"
proof (induction t arbitrary: ctx)
  case (JInt i)
  then show ?case using literal_calm(1) [of ctx i] by (auto simp add: is_container_def)
next
  case (JFloat x)
  then show ?case using literal_calm(2) [of ctx x] by (auto simp add: is_container_def)
next
  case (JStr s)
  then show ?case using literal_calm(3) [of ctx s] by (auto simp add: is_container_def)
next
  case (JArr vs)
  let ?cp = "ctx\<lparr>stack_ptr := stack_ptr ctx + 1,
              stack := (stack ctx)(stack_ptr ctx + 1 :=
                (stack ctx (stack_ptr ctx + 1))\<lparr>se_size := 0, se_type := ARRAY, se_elems := []\<rparr>)\<rparr>"
  have push: "push ctx ARRAY = (True, ?cp)"
    using JArr.prems(4) by (simp add: push_result)
  have cp: "calm ?cp" "0 \<le> stack_ptr ?cp" "se_type (stack ?cp (stack_ptr ?cp)) = ARRAY"
    using JArr.prems(1,2) by (simp_all add: calm_def)
  have d: "\<forall>v \<in> set vs. stack_ptr ?cp + int (depth v) < MAX_DEPTH"
    using JArr.prems(4) depth_elem [of _ vs] by fastforce
  have "\<exists>cb. call_back parse_json_cb ?cp (concat (map events vs)) = (True, cb) \<and> calm cb"
    using cp(1,2) d
  proof (rule children_array_calm [rotated])
    fix v c
    assume "v \<in> set vs" "calm c" "0 \<le> stack_ptr c" "stack_ptr c + int (depth v) < MAX_DEPTH"
    then show "\<exists>ctx'. call_back parse_json_cb c (events v) = (True, ctx') \<and> calm ctx'"
      by (intro JArr.IH) simp_all
  qed
  then obtain cb where b: "call_back parse_json_cb ?cp (concat (map events vs)) = (True, cb)"
    and cb: "calm cb" by blast
  have "filled repr ?cp cb (map stored vs)"
    by (rule children_array [OF value_grown cp(2,3) b])
  from filled_size [OF this] have sp: "stack_ptr cb = stack_ptr ctx + 1"
    and sz: "se_size (stack cb (stack_ptr cb)) = int (length (se_elems (stack cb (stack_ptr cb))))"
    by auto
  have "\<exists>ctx'. pop cb = (True, ctx') \<and> calm ctx'"
    using cb sp sz JArr.prems(2,4) by (intro pop_calm) simp_all
  then obtain ctx' where pop: "pop cb = (True, ctx')" and c': "calm ctx'" by blast
  have p1: "parse_json_cb ctx JSON_T_ARRAY_BEGIN no_value = (True, ?cp)"
    using push by (simp add: parse_json_cb_def)
  have p2: "parse_json_cb cb JSON_T_ARRAY_END no_value = (True, ctx')"
    using pop by (simp add: parse_json_cb_def)
  show ?case
    using c' by (intro exI [of _ ctx']) (simp add: call_back_append p1 b p2)
next
  case (JObj kvs)
  let ?cp = "ctx\<lparr>stack_ptr := stack_ptr ctx + 1,
              stack := (stack ctx)(stack_ptr ctx + 1 :=
                (stack ctx (stack_ptr ctx + 1))\<lparr>se_size := 0, se_type := OBJECT, se_elems := []\<rparr>)\<rparr>"
  have push: "push ctx OBJECT = (True, ?cp)"
    using JObj.prems(4) by (simp add: push_result)
  have cp: "calm ?cp" "0 \<le> stack_ptr ?cp" "se_type (stack ?cp (stack_ptr ?cp)) \<noteq> ARRAY"
    "stack_ptr ?cp < MAX_DEPTH"
    using JObj.prems(1,2,4) by (simp_all add: calm_def)
  have d: "\<forall>kv \<in> set kvs. stack_ptr ?cp + int (depth (snd kv)) < MAX_DEPTH"
    using JObj.prems(4) depth_member [of _ kvs] by fastforce
  have "\<exists>cb. call_back parse_json_cb ?cp
         (concat (map (\<lambda>kv. key_event (fst kv) # events (snd kv)) kvs)) = (True, cb) \<and> calm cb"
    using cp(1,2,4) d
  proof (rule children_object_calm [rotated])
    fix kv c
    assume "kv \<in> set kvs" "calm c" "0 \<le> stack_ptr c"
      "stack_ptr c + int (depth (snd kv)) < MAX_DEPTH"
    then show "\<exists>ctx'. call_back parse_json_cb c (events (snd kv)) = (True, ctx') \<and> calm ctx'"
      by (intro JObj.IH [OF _ snd_in_snds]) simp_all
  qed
  then obtain cb where b: "call_back parse_json_cb ?cp
         (concat (map (\<lambda>kv. key_event (fst kv) # events (snd kv)) kvs)) = (True, cb)"
    and cb: "calm cb" by blast
  have "filled repr_pair ?cp cb (map (\<lambda>kv. (take 79 (c_str (fst kv)), stored (snd kv))) kvs)"
    by (rule children_object [OF value_grown cp(2,3) b])
  from filled_size [OF this] have sp: "stack_ptr cb = stack_ptr ctx + 1"
    and sz: "se_size (stack cb (stack_ptr cb)) = int (length (se_elems (stack cb (stack_ptr cb))))"
    by auto
  have "\<exists>ctx'. pop cb = (True, ctx') \<and> calm ctx'"
    using cb sp sz JObj.prems(2,4) by (intro pop_calm) simp_all
  then obtain ctx' where pop: "pop cb = (True, ctx')" and c': "calm ctx'" by blast
  have p1: "parse_json_cb ctx JSON_T_OBJECT_BEGIN no_value = (True, ?cp)"
    using push by (simp add: parse_json_cb_def)
  have p2: "parse_json_cb cb JSON_T_OBJECT_END no_value = (True, ctx')"
    using pop by (simp add: parse_json_cb_def)
  show ?case
    using c' by (intro exI [of _ ctx']) (simp add: call_back_append p1 b p2)
qed

section \<open>The tokenizer of the examples reads the printed text\<close>

lemma runs_Nil: "runs p [] [] p"
  by (simp add: runs_def)

lemma runs_append:
  "runs p xs e1 p1 \<Longrightarrow> runs p1 ys e2 p2 \<Longrightarrow> runs p (xs @ ys) (e1 @ e2) p2"
proof (induction xs arbitrary: p e1)
  case Nil
  then show ?case by (simp add: runs_def)
next
  case (Cons c cs)
  from Cons.prems(1) have c: "c \<noteq> NUL" and n: "NUL \<notin> set cs"
    by (auto simp add: runs_def)
  obtain ev r where pc: "parser_char json_tokenizer p (next_char_of False c) = (ev, r)"
    by fastforce
  with Cons.prems(1) c obtain q where r: "r = Some q"
    by (cases r) (auto simp add: runs_def next_char_of_zero)
  from Cons.prems(1) c pc r obtain e' where
    t: "tokenize json_tokenizer False q cs = Some (e', p1)" and e1: "e1 = ev @ e'"
    by (auto simp add: runs_def next_char_of_zero split: option.splits)
  have "runs q cs e' p1" using t n by (simp add: runs_def)
  from Cons.IH [OF this Cons.prems(2)] have "runs q (cs @ ys) (e' @ e2) p2" .
  with c pc r e1 show ?case by (simp add: runs_def next_char_of_zero)
qed

lemma runs_char:
  "c \<noteq> NUL \<Longrightarrow> json_char p c = (evs, Some p') \<Longrightarrow> runs p [c] evs p'"
  using next_char_of_zero [of False c]
  by (simp add: runs_def json_tokenizer_def next_char_of_unsigned json_byte_of_char)

lemma runs_Cons:
  assumes "c \<noteq> NUL" and "json_char p c = (e1, Some p1)" and "runs p1 cs e2 p2"
  shows "runs p (c # cs) (e1 @ e2) p2"
proof -
  have "runs p [c] e1 p1" using assms(1,2) by (rule runs_char)
  from runs_append [OF this assms(3)] show ?thesis by simp
qed

lemma plain_char_facts:
  assumes "plain_char c"
  shows "c \<noteq> NUL" "c \<noteq> CHR 0x22" "c \<noteq> CHR 0x5C" "\<not> (of_char c :: nat) < 32"
  using assms by (auto simp add: plain_char_def NUL_def)

lemma runs_string_body:
  "list_all plain_char s \<Longrightarrow>
     runs \<lparr>jp_state = ST k acc, jp_modes = ms, jp_depth = dp, jp_comments = cm\<rparr> s []
          \<lparr>jp_state = ST k (acc @ s), jp_modes = ms, jp_depth = dp, jp_comments = cm\<rparr>"
proof (induction s arbitrary: acc)
  case Nil
  then show ?case by (simp add: runs_Nil)
next
  case (Cons c s)
  from Cons.prems have pc: "plain_char c" and ps: "list_all plain_char s" by simp_all
  have "runs \<lparr>jp_state = ST k acc, jp_modes = ms, jp_depth = dp, jp_comments = cm\<rparr>
      (c # s) ([] @ [])
      \<lparr>jp_state = ST k ((acc @ [c]) @ s), jp_modes = ms, jp_depth = dp, jp_comments = cm\<rparr>"
    using plain_char_facts [OF pc]
    by (intro runs_Cons [OF _ _ Cons.IH [OF ps]]) (simp_all add: json_char_def)
  then show ?case by simp
qed

lemma runs_quoted:
  assumes "list_all plain_char s"
    and "json_char \<lparr>jp_state = st, jp_modes = ms, jp_depth = dp, jp_comments = cm\<rparr> (CHR 0x22)
       = ([], Some \<lparr>jp_state = ST k [], jp_modes = ms, jp_depth = dp, jp_comments = cm\<rparr>)"
  shows "runs \<lparr>jp_state = st, jp_modes = ms, jp_depth = dp, jp_comments = cm\<rparr> (quoted s)
          [str_event k s]
          \<lparr>jp_state = (if k then CO else OK), jp_modes = ms, jp_depth = dp, jp_comments = cm\<rparr>"
proof -
  have b: "runs \<lparr>jp_state = ST k [], jp_modes = ms, jp_depth = dp, jp_comments = cm\<rparr> s []
          \<lparr>jp_state = ST k s, jp_modes = ms, jp_depth = dp, jp_comments = cm\<rparr>"
    using runs_string_body [OF assms(1), of k "[]"] by simp
  have e: "runs \<lparr>jp_state = ST k s, jp_modes = ms, jp_depth = dp, jp_comments = cm\<rparr> [CHR 0x22]
          [str_event k s]
          \<lparr>jp_state = (if k then CO else OK), jp_modes = ms, jp_depth = dp, jp_comments = cm\<rparr>"
    by (rule runs_char) (simp_all add: json_char_def NUL_def)
  have "runs \<lparr>jp_state = st, jp_modes = ms, jp_depth = dp, jp_comments = cm\<rparr>
      (CHR 0x22 # (s @ [CHR 0x22])) ([] @ ([] @ [str_event k s]))
      \<lparr>jp_state = (if k then CO else OK), jp_modes = ms, jp_depth = dp, jp_comments = cm\<rparr>"
    by (rule runs_Cons [OF _ assms(2) runs_append [OF b e]]) (simp add: NUL_def)
  then show ?thesis by (simp add: quoted_def)
qed

lemma digit_char_facts:
  assumes "n < 10"
  shows "is_digit (digit_char n)" "digit_val (digit_char n) = n" "digit_char n \<noteq> NUL"
proof -
  from assms have "n \<in> set [0, 1, 2, 3, 4, 5, 6, 7, 8, 9]"
    by simp arith
  then show "is_digit (digit_char n)" "digit_val (digit_char n) = n" "digit_char n \<noteq> NUL"
    by (auto simp add: digit_char_def is_digit_def digit_val_def NUL_def)
qed

lemma runs_digits:
  assumes first: "\<And>c. is_digit c \<Longrightarrow> c \<noteq> NUL \<Longrightarrow>
      json_char \<lparr>jp_state = st, jp_modes = ms, jp_depth = dp, jp_comments = cm\<rparr> c
        = ([], Some \<lparr>jp_state = IN neg (digit_val c), jp_modes = ms, jp_depth = dp,
                   jp_comments = cm\<rparr>)"
  shows "runs \<lparr>jp_state = st, jp_modes = ms, jp_depth = dp, jp_comments = cm\<rparr> (dec_nat n) []
          \<lparr>jp_state = IN neg n, jp_modes = ms, jp_depth = dp, jp_comments = cm\<rparr>"
proof (induction n rule: dec_nat.induct)
  case (1 n)
  show ?case
  proof (cases "n < 10")
    case True
    have "runs \<lparr>jp_state = st, jp_modes = ms, jp_depth = dp, jp_comments = cm\<rparr>
        [digit_char n] []
        \<lparr>jp_state = IN neg n, jp_modes = ms, jp_depth = dp, jp_comments = cm\<rparr>"
      using digit_char_facts [OF True] first [of "digit_char n"]
      by (intro runs_char) simp_all
    with True show ?thesis by (subst dec_nat.simps) simp
  next
    case False
    have m: "n mod 10 < 10" by simp
    have a: "runs \<lparr>jp_state = st, jp_modes = ms, jp_depth = dp, jp_comments = cm\<rparr>
        (dec_nat (n div 10)) []
        \<lparr>jp_state = IN neg (n div 10), jp_modes = ms, jp_depth = dp, jp_comments = cm\<rparr>"
      using "1.IH" False by simp
    have b: "runs \<lparr>jp_state = IN neg (n div 10), jp_modes = ms, jp_depth = dp, jp_comments = cm\<rparr>
        [digit_char (n mod 10)] []
        \<lparr>jp_state = IN neg n, jp_modes = ms, jp_depth = dp, jp_comments = cm\<rparr>"
      using digit_char_facts [OF m]
      by (intro runs_char) (simp_all add: json_char_def)
    from runs_append [OF a b] False show ?thesis by (subst dec_nat.simps) simp
  qed
qed

lemma is_digit_cases:
  assumes "is_digit c"
  shows "c = CHR ''0'' \<or> c = CHR ''1'' \<or> c = CHR ''2'' \<or> c = CHR ''3'' \<or> c = CHR ''4''
     \<or> c = CHR ''5'' \<or> c = CHR ''6'' \<or> c = CHR ''7'' \<or> c = CHR ''8'' \<or> c = CHR ''9''"
  using assms by (simp add: is_digit_def)

lemma json_char_first_digit:
  assumes "is_digit c" and "st = VA \<or> st = AR"
  shows "json_char \<lparr>jp_state = st, jp_modes = ms, jp_depth = dp, jp_comments = cm\<rparr> c
        = ([], Some \<lparr>jp_state = IN False (digit_val c), jp_modes = ms, jp_depth = dp,
                   jp_comments = cm\<rparr>)"
proof -
  have "start_value \<lparr>jp_state = st, jp_modes = ms, jp_depth = dp, jp_comments = cm\<rparr> c
        = ([], Some \<lparr>jp_state = IN False (digit_val c), jp_modes = ms, jp_depth = dp,
                   jp_comments = cm\<rparr>)"
    using is_digit_cases [OF assms(1)]
    by (elim disjE) (simp_all add: start_value_def is_ws_def is_digit_def)
  moreover have "c \<noteq> CHR '']''"
    using is_digit_cases [OF assms(1)] by (elim disjE) simp_all
  ultimately show ?thesis
    using assms(2) by (elim disjE) (simp_all add: json_char_def)
qed

lemma runs_dec_int:
  assumes "st = VA \<or> st = AR"
  shows "\<exists>neg n. runs \<lparr>jp_state = st, jp_modes = ms, jp_depth = dp, jp_comments = cm\<rparr>
          (dec_int i) []
          \<lparr>jp_state = IN neg n, jp_modes = ms, jp_depth = dp, jp_comments = cm\<rparr>
        \<and> int_event neg n = integer_event i"
proof (cases "i < 0")
  case False
  have "runs \<lparr>jp_state = st, jp_modes = ms, jp_depth = dp, jp_comments = cm\<rparr>
          (dec_nat (nat i)) []
          \<lparr>jp_state = IN False (nat i), jp_modes = ms, jp_depth = dp, jp_comments = cm\<rparr>"
    using assms by (intro runs_digits json_char_first_digit)
  with False show ?thesis
    by (intro exI [of _ False] exI [of _ "nat i"]) (simp add: dec_int_def int_event_def)
next
  case True
  have m: "json_char \<lparr>jp_state = st, jp_modes = ms, jp_depth = dp, jp_comments = cm\<rparr> (CHR ''-'')
      = ([], Some \<lparr>jp_state = MI, jp_modes = ms, jp_depth = dp, jp_comments = cm\<rparr>)"
    using assms by (auto simp add: json_char_def start_value_def is_ws_def is_digit_def)
  have d: "runs \<lparr>jp_state = MI, jp_modes = ms, jp_depth = dp, jp_comments = cm\<rparr>
          (dec_nat (nat (- i))) []
          \<lparr>jp_state = IN True (nat (- i)), jp_modes = ms, jp_depth = dp, jp_comments = cm\<rparr>"
    by (intro runs_digits) (simp add: json_char_def)
  have "runs \<lparr>jp_state = st, jp_modes = ms, jp_depth = dp, jp_comments = cm\<rparr>
          (CHR ''-'' # dec_nat (nat (- i))) ([] @ [])
          \<lparr>jp_state = IN True (nat (- i)), jp_modes = ms, jp_depth = dp, jp_comments = cm\<rparr>"
    by (rule runs_Cons [OF _ m d]) (simp add: NUL_def)
  with True show ?thesis
    by (intro exI [of _ True] exI [of _ "nat (- i)"]) (simp add: dec_int_def int_event_def)
qed

lemma after_a_value_cases:
  "after_a_value s \<Longrightarrow> s = OK \<or> (\<exists>neg n. s = IN neg n)"
  by (cases s) simp_all

text \<open>The bytes that end a value: white space, the comma and the closing brackets.\<close>

lemma json_char_after:
  assumes "after_a_value s" and "\<not> is_digit c" and "c \<noteq> CHR ''.''"
  shows "json_char \<lparr>jp_state = s, jp_modes = ms, jp_depth = dp, jp_comments = cm\<rparr> c
    = (pending s @ fst (after_value \<lparr>jp_state = s, jp_modes = ms, jp_depth = dp, jp_comments = cm\<rparr> c),
       snd (after_value \<lparr>jp_state = s, jp_modes = ms, jp_depth = dp, jp_comments = cm\<rparr> c))"
proof -
  from after_a_value_cases [OF assms(1)] show ?thesis
  proof (elim disjE exE)
    assume "s = OK"
    then show ?thesis by (simp add: json_char_def)
  next
    fix neg n
    assume "s = IN neg n"
    then show ?thesis using assms(2,3) by (simp add: json_char_def emit_then_def)
  qed
qed

lemma runs_newline:
  assumes "after_a_value s"
  shows "runs \<lparr>jp_state = s, jp_modes = ms, jp_depth = dp, jp_comments = cm\<rparr> [CHR 0x0A]
     (pending s) \<lparr>jp_state = OK, jp_modes = ms, jp_depth = dp, jp_comments = cm\<rparr>"
  by (rule runs_char)
    (simp_all add: json_char_after [OF assms] after_value_def is_ws_def is_digit_def NUL_def)

lemma runs_comma_array:
  assumes "after_a_value s"
  shows "runs \<lparr>jp_state = s, jp_modes = MODE_ARRAY # ms, jp_depth = dp, jp_comments = cm\<rparr> '',''
     (pending s) \<lparr>jp_state = VA, jp_modes = MODE_ARRAY # ms, jp_depth = dp, jp_comments = cm\<rparr>"
  by (rule runs_char)
    (simp_all add: json_char_after [OF assms] after_value_def is_ws_def is_digit_def NUL_def)

lemma runs_close_array:
  assumes "s = AR \<or> after_a_value s"
  shows "runs \<lparr>jp_state = s, jp_modes = MODE_ARRAY # ms, jp_depth = dp, jp_comments = cm\<rparr> '']''
     (pending s @ [(JSON_T_ARRAY_END, no_value)])
     \<lparr>jp_state = OK, jp_modes = ms, jp_depth = dp, jp_comments = cm\<rparr>"
proof (cases "s = AR")
  case True
  then show ?thesis
    by (intro runs_char) (simp_all add: json_char_def close_container_def NUL_def)
next
  case False
  with assms have a: "after_a_value s" by simp
  show ?thesis
    by (rule runs_char)
      (simp_all add: json_char_after [OF a] after_value_def close_container_def is_ws_def
        is_digit_def NUL_def)
qed

lemma runs_close_object:
  assumes "s = OB \<or> s = OK"
  shows "runs \<lparr>jp_state = s, jp_modes = MODE_OBJECT # ms, jp_depth = dp, jp_comments = cm\<rparr> ''}''
     [(JSON_T_OBJECT_END, no_value)]
     \<lparr>jp_state = OK, jp_modes = ms, jp_depth = dp, jp_comments = cm\<rparr>"
  using assms
  by (intro runs_char)
    (auto simp add: json_char_def after_value_def close_container_def is_ws_def NUL_def)

lemma runs_spaces:
  assumes "s = OB \<or> s = OK \<or> s = VA"
  shows "runs \<lparr>jp_state = s, jp_modes = ms, jp_depth = dp, jp_comments = cm\<rparr>
     (replicate n (CHR '' '')) []
     \<lparr>jp_state = s, jp_modes = ms, jp_depth = dp, jp_comments = cm\<rparr>"
proof (induction n)
  case 0
  then show ?case by (simp add: runs_Nil)
next
  case (Suc n)
  have "runs \<lparr>jp_state = s, jp_modes = ms, jp_depth = dp, jp_comments = cm\<rparr>
     (CHR '' '' # replicate n (CHR '' '')) ([] @ [])
     \<lparr>jp_state = s, jp_modes = ms, jp_depth = dp, jp_comments = cm\<rparr>"
    using assms
    by (intro runs_Cons [OF _ _ Suc])
      (auto simp add: json_char_def after_value_def start_value_def is_ws_def NUL_def)
  then show ?case by simp
qed

lemma OUT_INDENT_spaces: "OUT_INDENT x = replicate (2 * nat x) (CHR '' '')"
proof -
  have "concat (replicate n ''  '') = replicate (2 * n) (CHR '' '')" for n
    by (induction n) simp_all
  then show ?thesis by (simp add: OUT_INDENT_def)
qed

lemma runs_indent:
  assumes "s = OB \<or> s = OK \<or> s = VA"
  shows "runs \<lparr>jp_state = s, jp_modes = ms, jp_depth = dp, jp_comments = cm\<rparr>
     (OUT_INDENT x) [] \<lparr>jp_state = s, jp_modes = ms, jp_depth = dp, jp_comments = cm\<rparr>"
  unfolding OUT_INDENT_spaces by (rule runs_spaces [OF assms])

lemma runs_open:
  assumes "s = GO \<or> s = VA \<or> s = AR" and "int (length ms) < dp"
  shows "runs \<lparr>jp_state = s, jp_modes = ms, jp_depth = dp, jp_comments = cm\<rparr> ''[''
     [(JSON_T_ARRAY_BEGIN, no_value)]
     \<lparr>jp_state = AR, jp_modes = MODE_ARRAY # ms, jp_depth = dp, jp_comments = cm\<rparr>"
    and "runs \<lparr>jp_state = s, jp_modes = ms, jp_depth = dp, jp_comments = cm\<rparr> ''{''
     [(JSON_T_OBJECT_BEGIN, no_value)]
     \<lparr>jp_state = OB, jp_modes = MODE_OBJECT # ms, jp_depth = dp, jp_comments = cm\<rparr>"
  using assms
  by (auto intro!: runs_char
      simp add: json_char_def start_value_def open_container_def is_ws_def is_digit_def NUL_def)

lemma render_comma:
  "comma \<noteq> 0 \<Longrightarrow> render t indent comma nl = '','' @ render t indent 0 nl"
  by (cases t) (simp_all add: comma_text_def)

lemma runs_opt_newline:
  assumes "after_a_value s"
  shows "\<exists>e s'. runs \<lparr>jp_state = s, jp_modes = ms, jp_depth = dp, jp_comments = cm\<rparr>
            (newline_text nl) e
            \<lparr>jp_state = s', jp_modes = ms, jp_depth = dp, jp_comments = cm\<rparr> \<and>
          after_a_value s' \<and> e @ pending s' = pending s \<and> (nl \<noteq> 0 \<longrightarrow> s' = OK)"
proof (cases "nl = 0")
  case True
  with assms show ?thesis
    by (intro exI [of _ "[]"] exI [of _ s]) (simp add: newline_text_def runs_Nil)
next
  case False
  with runs_newline [OF assms, of ms dp cm] show ?thesis
    by (intro exI [of _ "pending s"] exI [of _ OK]) (simp add: newline_text_def)
qed

lemma runs_comma_object:
  "runs \<lparr>jp_state = OK, jp_modes = MODE_OBJECT # ms, jp_depth = dp, jp_comments = cm\<rparr> '',''
     [] \<lparr>jp_state = KE, jp_modes = MODE_OBJECT # ms, jp_depth = dp, jp_comments = cm\<rparr>"
  by (rule runs_char)
    (simp_all add: json_char_def after_value_def is_ws_def NUL_def)

lemma runs_colon:
  "runs \<lparr>jp_state = CO, jp_modes = ms, jp_depth = dp, jp_comments = cm\<rparr> '': ''
     [] \<lparr>jp_state = VA, jp_modes = ms, jp_depth = dp, jp_comments = cm\<rparr>"
proof -
  have a: "runs \<lparr>jp_state = CO, jp_modes = ms, jp_depth = dp, jp_comments = cm\<rparr> '':''
     [] \<lparr>jp_state = VA, jp_modes = ms, jp_depth = dp, jp_comments = cm\<rparr>"
    by (rule runs_char) (simp_all add: json_char_def is_ws_def NUL_def)
  have b: "runs \<lparr>jp_state = VA, jp_modes = ms, jp_depth = dp, jp_comments = cm\<rparr> '' ''
     [] \<lparr>jp_state = VA, jp_modes = ms, jp_depth = dp, jp_comments = cm\<rparr>"
    by (rule runs_char) (simp_all add: json_char_def start_value_def is_ws_def NUL_def)
  from runs_append [OF a b] show ?thesis by simp
qed

lemma runs_key:
  assumes "list_all plain_char k" and "s = OB \<or> s = KE"
  shows "runs \<lparr>jp_state = s, jp_modes = ms, jp_depth = dp, jp_comments = cm\<rparr> (quoted k)
     [key_event k] \<lparr>jp_state = CO, jp_modes = ms, jp_depth = dp, jp_comments = cm\<rparr>"
proof -
  have "json_char \<lparr>jp_state = s, jp_modes = ms, jp_depth = dp, jp_comments = cm\<rparr> (CHR 0x22)
       = ([], Some \<lparr>jp_state = ST True [], jp_modes = ms, jp_depth = dp, jp_comments = cm\<rparr>)"
    using assms(2) by (elim disjE) (simp_all add: json_char_def is_ws_def)
  from runs_quoted [OF assms(1) this] show ?thesis by (simp add: str_event_def)
qed

lemma runs_string:
  assumes "list_all plain_char str" and "s = VA \<or> s = AR"
  shows "runs \<lparr>jp_state = s, jp_modes = ms, jp_depth = dp, jp_comments = cm\<rparr> (quoted str)
     [string_event str] \<lparr>jp_state = OK, jp_modes = ms, jp_depth = dp, jp_comments = cm\<rparr>"
proof -
  have "json_char \<lparr>jp_state = s, jp_modes = ms, jp_depth = dp, jp_comments = cm\<rparr> (CHR 0x22)
       = ([], Some \<lparr>jp_state = ST False [], jp_modes = ms, jp_depth = dp, jp_comments = cm\<rparr>)"
    using assms(2) by (elim disjE) (simp_all add: json_char_def start_value_def is_ws_def)
  from runs_quoted [OF assms(1) this] show ?thesis by (simp add: str_event_def)
qed

text \<open>The elements of an array, from element \<open>i\<close> on.\<close>

lemma runs_elems:
  assumes IH: "\<And>v st ms indent nl. v \<in> set vs \<Longrightarrow> printable v \<Longrightarrow> st = VA \<or> st = AR \<Longrightarrow>
      int (length ms) + int (depth v) \<le> dp \<Longrightarrow>
      \<exists>evs s'. runs \<lparr>jp_state = st, jp_modes = ms, jp_depth = dp, jp_comments = cm\<rparr>
            (render v indent 0 nl) evs
            \<lparr>jp_state = s', jp_modes = ms, jp_depth = dp, jp_comments = cm\<rparr> \<and>
          after_a_value s' \<and> evs @ pending s' = events v \<and> (nl \<noteq> 0 \<longrightarrow> s' = OK)"
  shows "list_all printable vs \<Longrightarrow>
      (\<forall>v \<in> set vs. int (length ms) + 1 + int (depth v) \<le> dp) \<Longrightarrow> 0 \<le> i \<Longrightarrow>
      (if i = 0 then s = AR else after_a_value s) \<Longrightarrow>
      \<exists>evs s'. runs \<lparr>jp_state = s, jp_modes = MODE_ARRAY # ms, jp_depth = dp, jp_comments = cm\<rparr>
            (indexed_concat (\<lambda>i v. render v indent i 0) i vs) evs
            \<lparr>jp_state = s', jp_modes = MODE_ARRAY # ms, jp_depth = dp, jp_comments = cm\<rparr> \<and>
          (s' = AR \<or> after_a_value s') \<and>
          evs @ pending s' = pending s @ concat (map events vs)"
  using IH
proof (induction vs arbitrary: i s)
  case Nil
  then show ?case
    by (intro exI [of _ "[]"] exI [of _ s]) (auto simp add: runs_Nil split: if_splits)
next
  case (Cons v vs)
  let ?P = "\<lambda>s. \<lparr>jp_state = s, jp_modes = MODE_ARRAY # ms, jp_depth = dp, jp_comments = cm\<rparr>"
  from Cons.prems(1) have pv: "printable v" and pvs: "list_all printable vs" by simp_all
  from Cons.prems(2) have dv: "int (length (MODE_ARRAY # ms)) + int (depth v) \<le> dp"
    and dvs: "\<forall>v \<in> set vs. int (length ms) + 1 + int (depth v) \<le> dp"
    by simp_all
  have first: "\<exists>e1 s1. runs (?P s) (render v indent i 0) e1 (?P s1) \<and> after_a_value s1 \<and>
      e1 @ pending s1 = pending s @ events v"
  proof (cases "i = 0")
    case True
    with Cons.prems(4) have s: "s = AR" by simp
    from Cons.prems(5) [of v AR "MODE_ARRAY # ms" indent 0] pv dv
    obtain e1 s1 where "runs (?P AR) (render v indent 0 0) e1 (?P s1)" "after_a_value s1"
      "e1 @ pending s1 = events v"
      by auto
    with True s show ?thesis
      by (intro exI [of _ e1] exI [of _ s1]) simp
  next
    case False
    with Cons.prems(4) have a: "after_a_value s" by simp
    from Cons.prems(5) [of v VA "MODE_ARRAY # ms" indent 0] pv dv
    obtain e1 s1 where r: "runs (?P VA) (render v indent 0 0) e1 (?P s1)" and a1: "after_a_value s1"
      and e: "e1 @ pending s1 = events v"
      by auto
    from runs_append [OF runs_comma_array [OF a] r]
    have "runs (?P s) (render v indent i 0) (pending s @ e1) (?P s1)"
      using False by (simp add: render_comma)
    with a1 e show ?thesis
      by (intro exI [of _ "pending s @ e1"] exI [of _ s1]) simp
  qed
  then obtain e1 s1 where r1: "runs (?P s) (render v indent i 0) e1 (?P s1)"
    and a1: "after_a_value s1" and e1: "e1 @ pending s1 = pending s @ events v"
    by blast
  have "\<exists>evs s'. runs (?P s1) (indexed_concat (\<lambda>i v. render v indent i 0) (i + 1) vs) evs (?P s')
      \<and> (s' = AR \<or> after_a_value s') \<and> evs @ pending s' = pending s1 @ concat (map events vs)"
    using pvs dvs Cons.prems(3,5) a1 by (intro Cons.IH) simp_all
  then obtain e2 s2 where
    r2: "runs (?P s1) (indexed_concat (\<lambda>i v. render v indent i 0) (i + 1) vs) e2 (?P s2)"
    and a2: "s2 = AR \<or> after_a_value s2"
    and e2: "e2 @ pending s2 = pending s1 @ concat (map events vs)"
    by blast
  have "(e1 @ e2) @ pending s2 = e1 @ (e2 @ pending s2)" by simp
  also have "\<dots> = (e1 @ pending s1) @ concat (map events vs)" unfolding e2 by simp
  also have "\<dots> = pending s @ concat (map events (v # vs))" unfolding e1 by simp
  finally have "(e1 @ e2) @ pending s2 = pending s @ concat (map events (v # vs))" .
  with runs_append [OF r1 r2] a2 show ?case
    by (intro exI [of _ "e1 @ e2"] exI [of _ s2]) simp
qed

lemma runs_newline_object:
  "runs \<lparr>jp_state = OB, jp_modes = ms, jp_depth = dp, jp_comments = cm\<rparr> [CHR 0x0A]
     [] \<lparr>jp_state = OB, jp_modes = ms, jp_depth = dp, jp_comments = cm\<rparr>"
  by (rule runs_char) (simp_all add: json_char_def is_ws_def NUL_def)

text \<open>The pairs of an object, from pair \<open>i\<close> on.\<close>

lemma runs_pairs:
  assumes IH: "\<And>kv st ms indent nl. kv \<in> set kvs \<Longrightarrow> printable (snd kv) \<Longrightarrow> st = VA \<or> st = AR \<Longrightarrow>
      int (length ms) + int (depth (snd kv)) \<le> dp \<Longrightarrow>
      \<exists>evs s'. runs \<lparr>jp_state = st, jp_modes = ms, jp_depth = dp, jp_comments = cm\<rparr>
            (render (snd kv) indent 0 nl) evs
            \<lparr>jp_state = s', jp_modes = ms, jp_depth = dp, jp_comments = cm\<rparr> \<and>
          after_a_value s' \<and> evs @ pending s' = events (snd kv) \<and> (nl \<noteq> 0 \<longrightarrow> s' = OK)"
  shows "list_all (\<lambda>kv. list_all plain_char (fst kv) \<and> length (fst kv) \<le> 79 \<and> printable (snd kv)) kvs \<Longrightarrow>
      (\<forall>kv \<in> set kvs. int (length ms) + 1 + int (depth (snd kv)) \<le> dp) \<Longrightarrow> 0 \<le> i \<Longrightarrow>
      (if i = 0 then s = OB else s = OK) \<Longrightarrow>
      \<exists>s'. runs \<lparr>jp_state = s, jp_modes = MODE_OBJECT # ms, jp_depth = dp, jp_comments = cm\<rparr>
            (indexed_concat (\<lambda>i kv. OUT_INDENT (indent + 1) @ comma_text i @ quoted (fst kv)
               @ '': '' @ render (snd kv) (indent + 1) 0 1) i kvs)
            (concat (map (\<lambda>kv. key_event (fst kv) # events (snd kv)) kvs))
            \<lparr>jp_state = s', jp_modes = MODE_OBJECT # ms, jp_depth = dp, jp_comments = cm\<rparr> \<and>
          (s' = OB \<or> s' = OK)"
  using IH
proof (induction kvs arbitrary: i s)
  case Nil
  then show ?case
    by (intro exI [of _ s]) (auto simp add: runs_Nil split: if_splits)
next
  case (Cons kv kvs)
  let ?P = "\<lambda>s. \<lparr>jp_state = s, jp_modes = MODE_OBJECT # ms, jp_depth = dp, jp_comments = cm\<rparr>"
  from Cons.prems(1) have pk: "list_all plain_char (fst kv)" and pv: "printable (snd kv)"
    and pvs: "list_all (\<lambda>kv. list_all plain_char (fst kv) \<and> length (fst kv) \<le> 79 \<and> printable (snd kv)) kvs"
    by simp_all
  from Cons.prems(2) have dv: "int (length (MODE_OBJECT # ms)) + int (depth (snd kv)) \<le> dp"
    and dvs: "\<forall>kv \<in> set kvs. int (length ms) + 1 + int (depth (snd kv)) \<le> dp"
    by simp_all
  from Cons.prems(4) have s: "s = OB \<or> s = OK" by (simp split: if_splits)
  then have s3: "s = OB \<or> s = OK \<or> s = VA" by blast
  have r0: "runs (?P s) (OUT_INDENT (indent + 1)) [] (?P s)"
    by (rule runs_indent [OF s3])
  have "\<exists>s0. runs (?P s) (comma_text i) [] (?P s0) \<and> (s0 = OB \<or> s0 = KE)"
  proof (cases "i = 0")
    case True
    with Cons.prems(4) show ?thesis
      by (intro exI [of _ OB]) (simp add: comma_text_def runs_Nil)
  next
    case False
    with Cons.prems(4) show ?thesis
      by (intro exI [of _ KE]) (simp add: comma_text_def runs_comma_object)
  qed
  then obtain s0 where r1: "runs (?P s) (comma_text i) [] (?P s0)" and s0: "s0 = OB \<or> s0 = KE"
    by blast
  have r2: "runs (?P s0) (quoted (fst kv)) [key_event (fst kv)] (?P CO)"
    by (rule runs_key [OF pk s0])
  have r3: "runs (?P CO) '': '' [] (?P VA)"
    by (rule runs_colon)
  from Cons.prems(5) [of kv VA "MODE_OBJECT # ms" "indent + 1" 1] pv dv
  obtain e4 s4 where r4': "runs (?P VA) (render (snd kv) (indent + 1) 0 1) e4 (?P s4)"
    and "e4 @ pending s4 = events (snd kv)" and "s4 = OK"
    by auto
  then have r4: "runs (?P VA) (render (snd kv) (indent + 1) 0 1) (events (snd kv)) (?P OK)"
    by simp
  have "\<exists>s'. runs (?P OK) (indexed_concat (\<lambda>i kv. OUT_INDENT (indent + 1) @ comma_text i @ quoted (fst kv)
               @ '': '' @ render (snd kv) (indent + 1) 0 1) (i + 1) kvs)
            (concat (map (\<lambda>kv. key_event (fst kv) # events (snd kv)) kvs)) (?P s') \<and>
          (s' = OB \<or> s' = OK)"
    using pvs dvs Cons.prems(3,5) by (intro Cons.IH) simp_all
  then obtain s5 where
    r5: "runs (?P OK) (indexed_concat (\<lambda>i kv. OUT_INDENT (indent + 1) @ comma_text i @ quoted (fst kv)
               @ '': '' @ render (snd kv) (indent + 1) 0 1) (i + 1) kvs)
            (concat (map (\<lambda>kv. key_event (fst kv) # events (snd kv)) kvs)) (?P s5)"
    and s5: "s5 = OB \<or> s5 = OK"
    by blast
  from runs_append [OF r0 runs_append [OF r1 runs_append [OF r2 runs_append [OF r3
    runs_append [OF r4 r5]]]]] s5
  show ?case
    by (intro exI [of _ s5]) simp
qed

text \<open>The tokenizer reads the text of a printable value back as the events of that value.
  A number is still pending when the text ends without a newline.\<close>

lemma runs_value:
  "printable t \<Longrightarrow> st = VA \<or> st = AR \<or> st = GO \<and> is_container t \<Longrightarrow>
    int (length ms) + int (depth t) \<le> dp \<Longrightarrow>
    \<exists>evs s'. runs \<lparr>jp_state = st, jp_modes = ms, jp_depth = dp, jp_comments = cm\<rparr>
          (render t indent 0 nl) evs
          \<lparr>jp_state = s', jp_modes = ms, jp_depth = dp, jp_comments = cm\<rparr> \<and>
        after_a_value s' \<and> evs @ pending s' = events t \<and> (nl \<noteq> 0 \<longrightarrow> s' = OK)"
proof (induction t arbitrary: st ms indent nl)
  case (JInt i)
  let ?P = "\<lambda>s. \<lparr>jp_state = s, jp_modes = ms, jp_depth = dp, jp_comments = cm\<rparr>"
  from JInt.prems(2) have st: "st = VA \<or> st = AR" by (simp add: is_container_def)
  from runs_dec_int [OF st, of ms dp cm i]
  obtain neg n where r: "runs (?P st) (dec_int i) [] (?P (IN neg n))"
    and e: "int_event neg n = integer_event i"
    by blast
  have a: "after_a_value (IN neg n)" by simp
  from runs_opt_newline [OF a, of ms dp cm nl]
  obtain e2 s2 where r2: "runs (?P (IN neg n)) (newline_text nl) e2 (?P s2)"
    and a2: "after_a_value s2" and e2: "e2 @ pending s2 = pending (IN neg n)"
    and n2: "nl \<noteq> 0 \<longrightarrow> s2 = OK"
    by blast
  from runs_append [OF r r2] a2 e2 n2 e show ?case
    by (intro exI [of _ e2] exI [of _ s2]) (simp add: comma_text_def)
next
  case (JFloat x)
  then show ?case by simp
next
  case (JStr str)
  let ?P = "\<lambda>s. \<lparr>jp_state = s, jp_modes = ms, jp_depth = dp, jp_comments = cm\<rparr>"
  from JStr.prems(2) have st: "st = VA \<or> st = AR" by (simp add: is_container_def)
  from JStr.prems(1) have p: "list_all plain_char str" by simp
  have r: "runs (?P st) (quoted str) [string_event str] (?P OK)"
    by (rule runs_string [OF p st])
  have a: "after_a_value OK" by simp
  from runs_opt_newline [OF a, of ms dp cm nl]
  obtain e2 s2 where r2: "runs (?P OK) (newline_text nl) e2 (?P s2)"
    and a2: "after_a_value s2" and e2: "e2 @ pending s2 = pending OK"
    and n2: "nl \<noteq> 0 \<longrightarrow> s2 = OK"
    by blast
  from e2 have e2': "e2 = []" "pending s2 = []" by simp_all
  from runs_append [OF r r2] a2 e2' n2 show ?case
    by (intro exI [of _ "[string_event str]"] exI [of _ s2]) (simp add: comma_text_def)
next
  case (JArr vs)
  let ?P = "\<lambda>s. \<lparr>jp_state = s, jp_modes = ms, jp_depth = dp, jp_comments = cm\<rparr>"
  let ?Q = "\<lambda>s. \<lparr>jp_state = s, jp_modes = MODE_ARRAY # ms, jp_depth = dp, jp_comments = cm\<rparr>"
  from JArr.prems(2) have st: "st = GO \<or> st = VA \<or> st = AR" by blast
  from JArr.prems(3) have room: "int (length ms) < dp" by simp
  from JArr.prems(1) have p: "list_all printable vs" by simp
  have d: "\<forall>v \<in> set vs. int (length ms) + 1 + int (depth v) \<le> dp"
  proof
    fix v assume "v \<in> set vs"
    then have "Suc (depth v) \<le> depth (JArr vs)" by (rule depth_elem)
    with JArr.prems(3) show "int (length ms) + 1 + int (depth v) \<le> dp" by linarith
  qed
  have r1: "runs (?P st) ''['' [(JSON_T_ARRAY_BEGIN, no_value)] (?Q AR)"
    by (rule runs_open(1) [OF st room])
  have "\<exists>evs s'. runs (?Q AR) (indexed_concat (\<lambda>i v. render v indent i 0) 0 vs) evs (?Q s') \<and>
          (s' = AR \<or> after_a_value s') \<and>
          evs @ pending s' = pending AR @ concat (map events vs)"
  proof (rule runs_elems [OF _ p d])
    fix v and st and ms :: "jmode list" and indent nl :: int
    assume "v \<in> set vs" "printable v" "st = VA \<or> st = AR" "int (length ms) + int (depth v) \<le> dp"
    then show "\<exists>evs s'. runs \<lparr>jp_state = st, jp_modes = ms, jp_depth = dp, jp_comments = cm\<rparr>
            (render v indent 0 nl) evs
            \<lparr>jp_state = s', jp_modes = ms, jp_depth = dp, jp_comments = cm\<rparr> \<and>
          after_a_value s' \<and> evs @ pending s' = events v \<and> (nl \<noteq> 0 \<longrightarrow> s' = OK)"
      by (intro JArr.IH) auto
  qed simp_all
  then obtain e2 s2 where r2: "runs (?Q AR) (indexed_concat (\<lambda>i v. render v indent i 0) 0 vs) e2 (?Q s2)"
    and a2: "s2 = AR \<or> after_a_value s2" and e2: "e2 @ pending s2 = concat (map events vs)"
    by auto
  have r3: "runs (?Q s2) '']'' (pending s2 @ [(JSON_T_ARRAY_END, no_value)]) (?P OK)"
    by (rule runs_close_array [OF a2])
  have a: "after_a_value OK" by simp
  from runs_opt_newline [OF a, of ms dp cm nl]
  obtain e4 s4 where r4: "runs (?P OK) (newline_text nl) e4 (?P s4)"
    and a4: "after_a_value s4" and e4: "e4 @ pending s4 = pending OK"
    and n4: "nl \<noteq> 0 \<longrightarrow> s4 = OK"
    by blast
  from e4 have e4': "e4 = []" "pending s4 = []" by simp_all
  have ev: "[(JSON_T_ARRAY_BEGIN, no_value)] @ e2 @ (pending s2 @ [(JSON_T_ARRAY_END, no_value)]) @ e4
      = events (JArr vs)"
    using e2 [symmetric] e4' by simp
  from runs_append [OF r1 runs_append [OF r2 runs_append [OF r3 r4]]]
  have "runs (?P st) (render (JArr vs) indent 0 nl) (events (JArr vs)) (?P s4)"
    unfolding ev by (simp add: comma_text_def)
  with a4 e4' n4 show ?case
    by (intro exI [of _ "events (JArr vs)"] exI [of _ s4]) simp
next
  case (JObj kvs)
  let ?P = "\<lambda>s. \<lparr>jp_state = s, jp_modes = ms, jp_depth = dp, jp_comments = cm\<rparr>"
  let ?Q = "\<lambda>s. \<lparr>jp_state = s, jp_modes = MODE_OBJECT # ms, jp_depth = dp, jp_comments = cm\<rparr>"
  from JObj.prems(2) have st: "st = GO \<or> st = VA \<or> st = AR" by blast
  from JObj.prems(3) have room: "int (length ms) < dp" by simp
  from JObj.prems(1)
  have p: "list_all (\<lambda>kv. list_all plain_char (fst kv) \<and> length (fst kv) \<le> 79 \<and> printable (snd kv)) kvs"
    by simp
  have d: "\<forall>kv \<in> set kvs. int (length ms) + 1 + int (depth (snd kv)) \<le> dp"
  proof
    fix kv assume "kv \<in> set kvs"
    then have "Suc (depth (snd kv)) \<le> depth (JObj kvs)" by (rule depth_member)
    with JObj.prems(3) show "int (length ms) + 1 + int (depth (snd kv)) \<le> dp" by linarith
  qed
  have r1: "runs (?P st) ''{'' [(JSON_T_OBJECT_BEGIN, no_value)] (?Q OB)"
    by (rule runs_open(2) [OF st room])
  have r1': "runs (?Q OB) [CHR 0x0A] [] (?Q OB)"
    by (rule runs_newline_object)
  have "\<exists>s'. runs (?Q OB) (indexed_concat (\<lambda>i kv. OUT_INDENT (indent + 1) @ comma_text i @ quoted (fst kv)
               @ '': '' @ render (snd kv) (indent + 1) 0 1) 0 kvs)
            (concat (map (\<lambda>kv. key_event (fst kv) # events (snd kv)) kvs)) (?Q s') \<and>
          (s' = OB \<or> s' = OK)"
  proof (rule runs_pairs [OF _ p d])
    fix kv :: "string \<times> jv" and st and ms :: "jmode list" and indent nl :: int
    assume "kv \<in> set kvs" "printable (snd kv)" "st = VA \<or> st = AR"
      "int (length ms) + int (depth (snd kv)) \<le> dp"
    then show "\<exists>evs s'. runs \<lparr>jp_state = st, jp_modes = ms, jp_depth = dp, jp_comments = cm\<rparr>
            (render (snd kv) indent 0 nl) evs
            \<lparr>jp_state = s', jp_modes = ms, jp_depth = dp, jp_comments = cm\<rparr> \<and>
          after_a_value s' \<and> evs @ pending s' = events (snd kv) \<and> (nl \<noteq> 0 \<longrightarrow> s' = OK)"
      by (intro JObj.IH [of kv "snd kv"]) (auto simp add: snd_in_snds)
  qed simp_all
  then obtain s2 where r2: "runs (?Q OB) (indexed_concat (\<lambda>i kv. OUT_INDENT (indent + 1) @ comma_text i @ quoted (fst kv)
               @ '': '' @ render (snd kv) (indent + 1) 0 1) 0 kvs)
            (concat (map (\<lambda>kv. key_event (fst kv) # events (snd kv)) kvs)) (?Q s2)"
    and a2: "s2 = OB \<or> s2 = OK"
    by auto
  from a2 have a3: "s2 = OB \<or> s2 = OK \<or> s2 = VA" by blast
  have r2': "runs (?Q s2) (OUT_INDENT indent) [] (?Q s2)"
    by (rule runs_indent [OF a3])
  have r3: "runs (?Q s2) ''}'' [(JSON_T_OBJECT_END, no_value)] (?P OK)"
    by (rule runs_close_object [OF a2])
  have a: "after_a_value OK" by simp
  from runs_opt_newline [OF a, of ms dp cm nl]
  obtain e4 s4 where r4: "runs (?P OK) (newline_text nl) e4 (?P s4)"
    and a4: "after_a_value s4" and e4: "e4 @ pending s4 = pending OK"
    and n4: "nl \<noteq> 0 \<longrightarrow> s4 = OK"
    by blast
  from e4 have e4': "e4 = []" "pending s4 = []" by simp_all
  from runs_append [OF r1 runs_append [OF r1' runs_append [OF r2 runs_append [OF r2'
    runs_append [OF r3 r4]]]]]
  have "runs (?P st) (render (JObj kvs) indent 0 nl) (events (JObj kvs)) (?P s4)"
    using e4' by (simp add: comma_text_def)
  with a4 e4' n4 show ?case
    by (intro exI [of _ "events (JObj kvs)"] exI [of _ s4]) simp
qed

section \<open>The printed text is ASCII\<close>

lemma tokenize_seven_bit:
  "seven_bit xs \<Longrightarrow> tokenize tok sg jc xs = tokenize tok False jc xs"
proof (induction xs arbitrary: jc)
  case Nil
  then show ?case by simp
next
  case (Cons c cs)
  from Cons.prems have c: "(of_char c :: nat) < 128" and cs: "seven_bit cs"
    by (simp_all add: seven_bit_def)
  have n: "next_char_of sg c = next_char_of False c"
    by (simp add: next_char_of_ascii [OF c] next_char_of_unsigned)
  show ?case
    unfolding tokenize.simps n using Cons.IH [OF cs] by simp
qed

lemma seven_bit_append: "seven_bit (xs @ ys) \<longleftrightarrow> seven_bit xs \<and> seven_bit ys"
  by (simp add: seven_bit_def)

lemma seven_bit_Nil: "seven_bit []"
  by (simp add: seven_bit_def)

lemma seven_bit_Cons: "seven_bit (c # xs) \<longleftrightarrow> (of_char c :: nat) < 128 \<and> seven_bit xs"
  by (simp add: seven_bit_def)

lemma seven_bit_spaces: "seven_bit (replicate n (CHR '' ''))"
  by (induction n) (simp_all add: seven_bit_Nil seven_bit_Cons)

lemma seven_bit_indexed_concat:
  "(\<And>x j. x \<in> set xs \<Longrightarrow> seven_bit (g j x)) \<Longrightarrow> seven_bit (indexed_concat g i xs)"
  by (induction xs arbitrary: i) (simp_all add: seven_bit_append seven_bit_Nil)

lemma seven_bit_dec_nat: "seven_bit (dec_nat n)"
proof (induction n rule: dec_nat.induct)
  case (1 n)
  have d: "seven_bit [digit_char m]" if "m < 10" for m
  proof -
    from that have "m \<in> set [0, 1, 2, 3, 4, 5, 6, 7, 8, 9]"
      by simp arith
    then show ?thesis
      by (auto simp add: digit_char_def seven_bit_Cons seven_bit_Nil)
  qed
  show ?case
  proof (cases "n < 10")
    case True
    with d [OF True] show ?thesis by (subst dec_nat.simps) (simp del: dec_nat.simps)
  next
    case False
    have "seven_bit (dec_nat (n div 10) @ [digit_char (n mod 10)])"
      using "1.IH" False d [of "n mod 10"] by (simp add: seven_bit_append del: dec_nat.simps)
    with False show ?thesis by (subst dec_nat.simps) (simp del: dec_nat.simps)
  qed
qed

lemma seven_bit_dec_int: "seven_bit (dec_int i)"
proof -
  have "seven_bit (CHR ''-'' # dec_nat n)" for n
    using seven_bit_dec_nat [of n] by (simp add: seven_bit_Cons del: dec_nat.simps)
  then show ?thesis by (simp add: dec_int_def seven_bit_dec_nat del: dec_nat.simps)
qed

lemma plain_char_seven: "plain_char c \<Longrightarrow> (of_char c :: nat) < 128"
  by (simp add: plain_char_def)

lemma seven_bit_plain: "list_all plain_char s \<Longrightarrow> seven_bit s"
  by (induction s) (simp_all add: seven_bit_Nil seven_bit_Cons plain_char_seven)

lemma seven_bit_quoted: "list_all plain_char s \<Longrightarrow> seven_bit (quoted s)"
  using seven_bit_plain [of s]
  by (simp add: quoted_def seven_bit_append seven_bit_Cons seven_bit_Nil)

lemma seven_bit_marks:
  "seven_bit (comma_text comma)" "seven_bit (newline_text nl)" "seven_bit (OUT_INDENT x)"
  "seven_bit ''[''" "seven_bit '']''" "seven_bit ''{''" "seven_bit ''}''" "seven_bit '': ''"
  "seven_bit [CHR 0x0A]"
  by (simp_all add: seven_bit_Cons seven_bit_Nil seven_bit_spaces comma_text_def
      newline_text_def OUT_INDENT_spaces)

lemma seven_bit_render: "printable t \<Longrightarrow> seven_bit (render t indent comma nl)"
proof (induction t arbitrary: indent comma nl)
  case (JInt i)
  show ?case by (simp add: seven_bit_append seven_bit_Cons seven_bit_Nil seven_bit_marks seven_bit_dec_int)
next
  case (JFloat x)
  then show ?case by simp
next
  case (JStr s)
  then show ?case by (simp add: seven_bit_append seven_bit_Cons seven_bit_Nil seven_bit_marks seven_bit_quoted)
next
  case (JArr vs)
  have "seven_bit (indexed_concat (\<lambda>i v. render v indent i 0) 0 vs)"
  proof (rule seven_bit_indexed_concat)
    fix v and j :: int
    assume v: "v \<in> set vs"
    with JArr.prems have "printable v" by (simp add: list_all_iff)
    with v show "seven_bit (render v indent j 0)" by (rule JArr.IH)
  qed
  then show ?case by (simp add: seven_bit_append seven_bit_Cons seven_bit_Nil seven_bit_marks)
next
  case (JObj kvs)
  have "seven_bit (indexed_concat (\<lambda>i kv. OUT_INDENT (indent + 1) @ comma_text i @ quoted (fst kv)
           @ '': '' @ render (snd kv) (indent + 1) 0 1) 0 kvs)"
  proof (rule seven_bit_indexed_concat)
    fix kv :: "string \<times> jv" and j :: int
    assume kv: "kv \<in> set kvs"
    with JObj.prems have k: "list_all plain_char (fst kv)" and p: "printable (snd kv)"
      by (simp_all add: list_all_iff)
    have "seven_bit (render (snd kv) (indent + 1) 0 1)"
      using kv p by (intro JObj.IH [of kv "snd kv"]) (simp_all add: snd_in_snds)
    with k show "seven_bit (OUT_INDENT (indent + 1) @ comma_text j @ quoted (fst kv)
           @ '': '' @ render (snd kv) (indent + 1) 0 1)"
      by (simp add: seven_bit_append seven_bit_Cons seven_bit_Nil seven_bit_marks seven_bit_quoted)
  qed
  then show ?case by (simp add: seven_bit_append seven_bit_Cons seven_bit_Nil seven_bit_marks)
qed

text \<open>What \<open>runs\<close> says of a text of ASCII characters holds however \<open>char\<close> is read.\<close>

lemma runs_tokenize:
  "runs p xs evs p' \<Longrightarrow> seven_bit xs \<Longrightarrow> tokenize json_tokenizer sg p xs = Some (evs, p')"
  using tokenize_seven_bit [of xs json_tokenizer sg p] by (simp add: runs_def)

section \<open>Texts that nest too deep are rejected\<close>

lemma runs_then_rejected:
  "runs p xs e p' \<Longrightarrow> tokenize json_tokenizer False p' ys = None
     \<Longrightarrow> tokenize json_tokenizer False p (xs @ ys) = None"
proof (induction xs arbitrary: p e)
  case Nil
  then show ?case by (simp add: runs_def)
next
  case (Cons c cs)
  from Cons.prems(1) have c: "c \<noteq> NUL" and n: "NUL \<notin> set cs"
    by (auto simp add: runs_def)
  obtain ev r where pc: "parser_char json_tokenizer p (next_char_of False c) = (ev, r)"
    by fastforce
  with Cons.prems(1) c obtain q where r: "r = Some q"
    by (cases r) (auto simp add: runs_def next_char_of_zero)
  from Cons.prems(1) c pc r obtain e' where
    t: "tokenize json_tokenizer False q cs = Some (e', p')"
    by (auto simp add: runs_def next_char_of_zero split: option.splits)
  have "runs q cs e' p'" using t n by (simp add: runs_def)
  from Cons.IH [OF this Cons.prems(2)]
  have "tokenize json_tokenizer False q (cs @ ys) = None" .
  with c pc r show ?case by (simp add: next_char_of_zero)
qed

lemma rejected_char:
  "c \<noteq> NUL \<Longrightarrow> json_char p c = (evs, None)
     \<Longrightarrow> tokenize json_tokenizer False p (c # xs) = None"
  using next_char_of_zero [of False c]
  by (simp add: json_tokenizer_def next_char_of_unsigned json_byte_of_char)

lemma open_rejected:
  assumes "s = GO \<or> s = VA \<or> s = AR" and "0 \<le> dp" and "dp \<le> int (length ms)"
  shows "tokenize json_tokenizer False
           \<lparr>jp_state = s, jp_modes = ms, jp_depth = dp, jp_comments = cm\<rparr> (CHR ''['' # xs) = None"
    and "tokenize json_tokenizer False
           \<lparr>jp_state = s, jp_modes = ms, jp_depth = dp, jp_comments = cm\<rparr> (CHR ''{'' # xs) = None"
proof -
  have a: "json_char \<lparr>jp_state = s, jp_modes = ms, jp_depth = dp, jp_comments = cm\<rparr> (CHR ''['')
      = ([], None)"
    using assms
    by (elim disjE)
      (simp_all add: json_char_def start_value_def open_container_def is_ws_def is_digit_def)
  have b: "json_char \<lparr>jp_state = s, jp_modes = ms, jp_depth = dp, jp_comments = cm\<rparr> (CHR ''{'')
      = ([], None)"
    using assms
    by (elim disjE)
      (simp_all add: json_char_def start_value_def open_container_def is_ws_def is_digit_def)
  show "tokenize json_tokenizer False
           \<lparr>jp_state = s, jp_modes = ms, jp_depth = dp, jp_comments = cm\<rparr> (CHR ''['' # xs) = None"
    by (rule rejected_char [OF _ a]) (simp add: NUL_def)
  show "tokenize json_tokenizer False
           \<lparr>jp_state = s, jp_modes = ms, jp_depth = dp, jp_comments = cm\<rparr> (CHR ''{'' # xs) = None"
    by (rule rejected_char [OF _ b]) (simp add: NUL_def)
qed

lemma foldr_max_cases: "foldr max xs (0 :: nat) = 0 \<or> foldr max xs 0 \<in> set xs"
  by (induction xs) (auto simp add: max_def)

text \<open>One element of an array that fits, at the index \<open>i\<close>.\<close>

lemma runs_elem:
  assumes "printable v" and "int (length ms) + 1 + int (depth v) \<le> dp"
    and "if i = 0 then s = AR else after_a_value s"
  shows "\<exists>e1 s1. runs \<lparr>jp_state = s, jp_modes = MODE_ARRAY # ms, jp_depth = dp, jp_comments = cm\<rparr>
            (render v indent i 0) e1
            \<lparr>jp_state = s1, jp_modes = MODE_ARRAY # ms, jp_depth = dp, jp_comments = cm\<rparr> \<and>
          after_a_value s1"
proof -
  let ?P = "\<lambda>s. \<lparr>jp_state = s, jp_modes = MODE_ARRAY # ms, jp_depth = dp, jp_comments = cm\<rparr>"
  from assms(2) have dv: "int (length (MODE_ARRAY # ms)) + int (depth v) \<le> dp" by simp
  show ?thesis
  proof (cases "i = 0")
    case True
    with assms(3) have s: "s = AR" by simp
    have "AR = VA \<or> AR = AR \<or> AR = GO \<and> is_container v" by simp
    from runs_value [OF assms(1) this dv, of cm indent 0]
    obtain e1 s1 where "runs (?P AR) (render v indent 0 0) e1 (?P s1)" "after_a_value s1"
      by blast
    with True s show ?thesis
      by (intro exI [of _ e1] exI [of _ s1]) simp
  next
    case False
    with assms(3) have a: "after_a_value s" by simp
    have "VA = VA \<or> VA = AR \<or> VA = GO \<and> is_container v" by simp
    from runs_value [OF assms(1) this dv, of cm indent 0]
    obtain e1 s1 where r: "runs (?P VA) (render v indent 0 0) e1 (?P s1)" and a1: "after_a_value s1"
      by blast
    from runs_append [OF runs_comma_array [OF a] r]
    have "runs (?P s) (render v indent i 0) (pending s @ e1) (?P s1)"
      using False by (simp add: render_comma)
    with a1 show ?thesis
      by (intro exI [of _ "pending s @ e1"] exI [of _ s1]) simp
  qed
qed

lemma rejected_elems:
  assumes IH: "\<And>v st ms indent nl rest. v \<in> set vs \<Longrightarrow> printable v \<Longrightarrow> st = VA \<or> st = AR \<Longrightarrow>
      int (length ms) \<le> dp \<Longrightarrow> dp < int (length ms) + int (depth v) \<Longrightarrow>
      tokenize json_tokenizer False
        \<lparr>jp_state = st, jp_modes = ms, jp_depth = dp, jp_comments = cm\<rparr>
        (render v indent 0 nl @ rest) = None"
  shows "list_all printable vs \<Longrightarrow> int (length ms) + 1 \<le> dp \<Longrightarrow>
      (\<exists>v \<in> set vs. dp < int (length ms) + 1 + int (depth v)) \<Longrightarrow>
      (if i = 0 then s = AR else after_a_value s) \<Longrightarrow> 0 \<le> i \<Longrightarrow>
      tokenize json_tokenizer False
        \<lparr>jp_state = s, jp_modes = MODE_ARRAY # ms, jp_depth = dp, jp_comments = cm\<rparr>
        (indexed_concat (\<lambda>i v. render v indent i 0) i vs @ rest) = None"
  using IH
proof (induction vs arbitrary: i s)
  case Nil
  then show ?case by simp
next
  case (Cons v vs)
  let ?P = "\<lambda>s. \<lparr>jp_state = s, jp_modes = MODE_ARRAY # ms, jp_depth = dp, jp_comments = cm\<rparr>"
  let ?more = "indexed_concat (\<lambda>i v. render v indent i 0) (i + 1) vs @ rest"
  from Cons.prems(1) have pv: "printable v" and pvs: "list_all printable vs" by simp_all
  from Cons.prems(2) have room: "int (length (MODE_ARRAY # ms)) \<le> dp" by simp
  show ?case
  proof (cases "dp < int (length ms) + 1 + int (depth v)")
    case True
    then have deep: "dp < int (length (MODE_ARRAY # ms)) + int (depth v)" by simp
    show ?thesis
    proof (cases "i = 0")
      case True
      with Cons.prems(4) have s: "s = AR" by simp
      from Cons.prems(6) [of v AR "MODE_ARRAY # ms" indent 0 ?more] pv room deep
      have "tokenize json_tokenizer False (?P AR) (render v indent 0 0 @ ?more) = None"
        by simp
      with True s show ?thesis by simp
    next
      case False
      with Cons.prems(4) have a: "after_a_value s" by simp
      from Cons.prems(6) [of v VA "MODE_ARRAY # ms" indent 0 ?more] pv room deep
      have "tokenize json_tokenizer False (?P VA) (render v indent 0 0 @ ?more) = None"
        by simp
      from runs_then_rejected [OF runs_comma_array [OF a] this]
      show ?thesis using False by (simp add: render_comma)
    qed
  next
    case False
    then have fits: "int (length ms) + 1 + int (depth v) \<le> dp" by simp
    from runs_elem [OF pv fits Cons.prems(4), of cm indent]
    obtain e1 s1 where r1: "runs (?P s) (render v indent i 0) e1 (?P s1)"
      and a1: "after_a_value s1"
      by blast
    from Cons.prems(3) False
    have ex: "\<exists>v \<in> set vs. dp < int (length ms) + 1 + int (depth v)" by auto
    have "tokenize json_tokenizer False (?P s1) ?more = None"
      using pvs Cons.prems(2) ex a1 Cons.prems(5,6) by (intro Cons.IH) simp_all
    from runs_then_rejected [OF r1 this] show ?thesis by simp
  qed
qed

text \<open>The start of a member of an object: the indent, the comma and the key.\<close>

lemma runs_member_start:
  assumes "list_all plain_char k" and "if i = 0 then s = OB else s = OK"
  shows "runs \<lparr>jp_state = s, jp_modes = MODE_OBJECT # ms, jp_depth = dp, jp_comments = cm\<rparr>
            (OUT_INDENT x @ comma_text i @ quoted k @ '': '') [key_event k]
            \<lparr>jp_state = VA, jp_modes = MODE_OBJECT # ms, jp_depth = dp, jp_comments = cm\<rparr>"
proof -
  let ?P = "\<lambda>s. \<lparr>jp_state = s, jp_modes = MODE_OBJECT # ms, jp_depth = dp, jp_comments = cm\<rparr>"
  from assms(2) have "s = OB \<or> s = OK" by (simp split: if_splits)
  then have s3: "s = OB \<or> s = OK \<or> s = VA" by blast
  have r0: "runs (?P s) (OUT_INDENT x) [] (?P s)"
    by (rule runs_indent [OF s3])
  have "\<exists>s0. runs (?P s) (comma_text i) [] (?P s0) \<and> (s0 = OB \<or> s0 = KE)"
  proof (cases "i = 0")
    case True
    with assms(2) show ?thesis
      by (intro exI [of _ OB]) (simp add: comma_text_def runs_Nil)
  next
    case False
    with assms(2) show ?thesis
      by (intro exI [of _ KE]) (simp add: comma_text_def runs_comma_object)
  qed
  then obtain s0 where r1: "runs (?P s) (comma_text i) [] (?P s0)" and s0: "s0 = OB \<or> s0 = KE"
    by blast
  have r2: "runs (?P s0) (quoted k) [key_event k] (?P CO)"
    by (rule runs_key [OF assms(1) s0])
  have r3: "runs (?P CO) '': '' [] (?P VA)"
    by (rule runs_colon)
  from runs_append [OF r0 runs_append [OF r1 runs_append [OF r2 r3]]]
  show ?thesis by simp
qed

lemma rejected_pairs:
  assumes IH: "\<And>kv st ms indent nl rest. kv \<in> set kvs \<Longrightarrow> printable (snd kv) \<Longrightarrow>
      st = VA \<or> st = AR \<Longrightarrow>
      int (length ms) \<le> dp \<Longrightarrow> dp < int (length ms) + int (depth (snd kv)) \<Longrightarrow>
      tokenize json_tokenizer False
        \<lparr>jp_state = st, jp_modes = ms, jp_depth = dp, jp_comments = cm\<rparr>
        (render (snd kv) indent 0 nl @ rest) = None"
  shows "list_all (\<lambda>kv. list_all plain_char (fst kv) \<and> length (fst kv) \<le> 79 \<and> printable (snd kv)) kvs \<Longrightarrow>
      int (length ms) + 1 \<le> dp \<Longrightarrow>
      (\<exists>kv \<in> set kvs. dp < int (length ms) + 1 + int (depth (snd kv))) \<Longrightarrow>
      (if i = 0 then s = OB else s = OK) \<Longrightarrow> 0 \<le> i \<Longrightarrow>
      tokenize json_tokenizer False
        \<lparr>jp_state = s, jp_modes = MODE_OBJECT # ms, jp_depth = dp, jp_comments = cm\<rparr>
        (indexed_concat (\<lambda>i kv. OUT_INDENT (indent + 1) @ comma_text i @ quoted (fst kv)
               @ '': '' @ render (snd kv) (indent + 1) 0 1) i kvs @ rest) = None"
  using IH
proof (induction kvs arbitrary: i s)
  case Nil
  then show ?case by simp
next
  case (Cons kv kvs)
  let ?P = "\<lambda>s. \<lparr>jp_state = s, jp_modes = MODE_OBJECT # ms, jp_depth = dp, jp_comments = cm\<rparr>"
  let ?more = "indexed_concat (\<lambda>i kv. OUT_INDENT (indent + 1) @ comma_text i @ quoted (fst kv)
               @ '': '' @ render (snd kv) (indent + 1) 0 1) (i + 1) kvs @ rest"
  from Cons.prems(1) have pk: "list_all plain_char (fst kv)" and pv: "printable (snd kv)"
    and pvs: "list_all (\<lambda>kv. list_all plain_char (fst kv) \<and> length (fst kv) \<le> 79 \<and> printable (snd kv)) kvs"
    by simp_all
  from Cons.prems(2) have room: "int (length (MODE_OBJECT # ms)) \<le> dp" by simp
  have r0: "runs (?P s) (OUT_INDENT (indent + 1) @ comma_text i @ quoted (fst kv) @ '': '')
      [key_event (fst kv)] (?P VA)"
    by (rule runs_member_start [OF pk Cons.prems(4)])
  have "tokenize json_tokenizer False (?P VA) (render (snd kv) (indent + 1) 0 1 @ ?more) = None"
  proof (cases "dp < int (length ms) + 1 + int (depth (snd kv))")
    case True
    then have deep: "dp < int (length (MODE_OBJECT # ms)) + int (depth (snd kv))" by simp
    from Cons.prems(6) [of kv VA "MODE_OBJECT # ms" "indent + 1" 1 ?more] pv room deep
    show ?thesis by simp
  next
    case False
    then have fits: "int (length (MODE_OBJECT # ms)) + int (depth (snd kv)) \<le> dp" by simp
    have "VA = VA \<or> VA = AR \<or> VA = GO \<and> is_container (snd kv)" by simp
    from runs_value [OF pv this fits, of cm "indent + 1" 1]
    obtain e4 s4 where r4: "runs (?P VA) (render (snd kv) (indent + 1) 0 1) e4 (?P s4)"
      and s4: "s4 = OK"
      by auto
    from Cons.prems(3) False
    have ex: "\<exists>kv \<in> set kvs. dp < int (length ms) + 1 + int (depth (snd kv))" by auto
    have "tokenize json_tokenizer False (?P OK) ?more = None"
      using pvs Cons.prems(2) ex Cons.prems(5,6) by (intro Cons.IH) simp_all
    from runs_then_rejected [OF r4 [unfolded s4] this] show ?thesis .
  qed
  from runs_then_rejected [OF r0 this] show ?case by simp
qed

text \<open>A printable value that nests more containers than the tokenizer has room for is
  rejected, whatever follows it.\<close>

lemma rejected_value:
  "printable t \<Longrightarrow> st = VA \<or> st = AR \<or> st = GO \<and> is_container t \<Longrightarrow>
    0 \<le> dp \<Longrightarrow> int (length ms) \<le> dp \<Longrightarrow> dp < int (length ms) + int (depth t) \<Longrightarrow>
    tokenize json_tokenizer False
      \<lparr>jp_state = st, jp_modes = ms, jp_depth = dp, jp_comments = cm\<rparr>
      (render t indent 0 nl @ rest) = None"
proof (induction t arbitrary: st ms indent nl rest)
  case (JInt i)
  then show ?case by simp
next
  case (JFloat x)
  then show ?case by simp
next
  case (JStr str)
  then show ?case by simp
next
  case (JArr vs)
  let ?P = "\<lambda>s. \<lparr>jp_state = s, jp_modes = ms, jp_depth = dp, jp_comments = cm\<rparr>"
  let ?Q = "\<lambda>s. \<lparr>jp_state = s, jp_modes = MODE_ARRAY # ms, jp_depth = dp, jp_comments = cm\<rparr>"
  let ?more = "'']'' @ newline_text nl @ rest"
  from JArr.prems(2) have st: "st = GO \<or> st = VA \<or> st = AR" by blast
  from JArr.prems(1) have p: "list_all printable vs" by simp
  show ?case
  proof (cases "int (length ms) < dp")
    case False
    with JArr.prems(4) have "dp \<le> int (length ms)" by simp
    from open_rejected(1) [OF st JArr.prems(3) this] show ?thesis
      by (simp add: comma_text_def)
  next
    case True
    then have room: "int (length ms) + 1 \<le> dp" by simp
    have r1: "runs (?P st) ''['' [(JSON_T_ARRAY_BEGIN, no_value)] (?Q AR)"
      by (rule runs_open(1) [OF st True])
    from JArr.prems(5) True have "foldr max (map depth vs) 0 \<noteq> 0" by auto
    with foldr_max_cases [of "map depth vs"]
    have "foldr max (map depth vs) 0 \<in> set (map depth vs)" by simp
    then obtain v where v: "v \<in> set vs" and dv: "depth v = foldr max (map depth vs) 0" by auto
    with JArr.prems(5) have "dp < int (length ms) + 1 + int (depth v)" by simp
    with v have ex: "\<exists>v \<in> set vs. dp < int (length ms) + 1 + int (depth v)" by blast
    have "tokenize json_tokenizer False (?Q AR)
        (indexed_concat (\<lambda>i v. render v indent i 0) 0 vs @ ?more) = None"
    proof (rule rejected_elems [OF _ p room ex])
      fix v and st and ms :: "jmode list" and indent nl :: int and rest
      assume "v \<in> set vs" "printable v" "st = VA \<or> st = AR" "int (length ms) \<le> dp"
        "dp < int (length ms) + int (depth v)"
      then show "tokenize json_tokenizer False
          \<lparr>jp_state = st, jp_modes = ms, jp_depth = dp, jp_comments = cm\<rparr>
          (render v indent 0 nl @ rest) = None"
        using JArr.prems(3) by (intro JArr.IH) auto
    qed simp_all
    from runs_then_rejected [OF r1 this] show ?thesis
      by (simp add: comma_text_def)
  qed
next
  case (JObj kvs)
  let ?P = "\<lambda>s. \<lparr>jp_state = s, jp_modes = ms, jp_depth = dp, jp_comments = cm\<rparr>"
  let ?Q = "\<lambda>s. \<lparr>jp_state = s, jp_modes = MODE_OBJECT # ms, jp_depth = dp, jp_comments = cm\<rparr>"
  let ?more = "OUT_INDENT indent @ ''}'' @ newline_text nl @ rest"
  from JObj.prems(2) have st: "st = GO \<or> st = VA \<or> st = AR" by blast
  from JObj.prems(1)
  have p: "list_all (\<lambda>kv. list_all plain_char (fst kv) \<and> length (fst kv) \<le> 79 \<and> printable (snd kv)) kvs"
    by simp
  show ?case
  proof (cases "int (length ms) < dp")
    case False
    with JObj.prems(4) have "dp \<le> int (length ms)" by simp
    from open_rejected(2) [OF st JObj.prems(3) this] show ?thesis
      by (simp add: comma_text_def)
  next
    case True
    then have room: "int (length ms) + 1 \<le> dp" by simp
    have r1: "runs (?P st) ''{'' [(JSON_T_OBJECT_BEGIN, no_value)] (?Q OB)"
      by (rule runs_open(2) [OF st True])
    have r1': "runs (?Q OB) [CHR 0x0A] [] (?Q OB)"
      by (rule runs_newline_object)
    from JObj.prems(5) True have "foldr max (map (\<lambda>kv. depth (snd kv)) kvs) 0 \<noteq> 0" by auto
    with foldr_max_cases [of "map (\<lambda>kv. depth (snd kv)) kvs"]
    have "foldr max (map (\<lambda>kv. depth (snd kv)) kvs) 0 \<in> set (map (\<lambda>kv. depth (snd kv)) kvs)"
      by simp
    then obtain kv where kv: "kv \<in> set kvs"
      and dv: "depth (snd kv) = foldr max (map (\<lambda>kv. depth (snd kv)) kvs) 0" by auto
    with JObj.prems(5) have "dp < int (length ms) + 1 + int (depth (snd kv))" by simp
    with kv have ex: "\<exists>kv \<in> set kvs. dp < int (length ms) + 1 + int (depth (snd kv))" by blast
    have "tokenize json_tokenizer False (?Q OB)
        (indexed_concat (\<lambda>i kv. OUT_INDENT (indent + 1) @ comma_text i @ quoted (fst kv)
               @ '': '' @ render (snd kv) (indent + 1) 0 1) 0 kvs @ ?more) = None"
    proof (rule rejected_pairs [OF _ p room ex])
      fix kv :: "string \<times> jv" and st and ms :: "jmode list" and indent nl :: int and rest
      assume "kv \<in> set kvs" "printable (snd kv)" "st = VA \<or> st = AR" "int (length ms) \<le> dp"
        "dp < int (length ms) + int (depth (snd kv))"
      then show "tokenize json_tokenizer False
          \<lparr>jp_state = st, jp_modes = ms, jp_depth = dp, jp_comments = cm\<rparr>
          (render (snd kv) indent 0 nl @ rest) = None"
        using JObj.prems(3) by (intro JObj.IH [of kv "snd kv"]) (auto simp add: snd_in_snds)
    qed simp_all
    from runs_then_rejected [OF r1 runs_then_rejected [OF r1' this]] show ?thesis
      by (simp add: comma_text_def)
  qed
qed

section \<open>Round trip: printing a document and parsing the text again\<close>

lemma plain_char_not_NUL: "list_all plain_char s \<Longrightarrow> c_str s = s"
proof (rule c_str_no_NUL)
  assume a: "list_all plain_char s"
  show "NUL \<notin> set s"
  proof
    assume "NUL \<in> set s"
    with a have "plain_char NUL" by (simp add: list_all_iff)
    from plain_char_facts(1) [OF this] show False by simp
  qed
qed

lemma stored_printable: "printable t \<Longrightarrow> stored t = t"
proof (induction t)
  case (JArr vs)
  then have "map stored vs = map id vs"
    by (intro map_cong) (auto simp add: list_all_iff)
  then show ?case by simp
next
  case (JObj kvs)
  have "map (\<lambda>kv. (take 79 (c_str (fst kv)), stored (snd kv))) kvs = map id kvs"
  proof (intro map_cong refl)
    fix kv assume kv: "kv \<in> set kvs"
    with JObj.prems have p: "list_all plain_char (fst kv)" "length (fst kv) \<le> 79" "printable (snd kv)"
      by (auto simp add: list_all_iff)
    from JObj.IH [of kv "snd kv"] kv p(3) have "stored (snd kv) = snd kv"
      by (simp add: snd_in_snds)
    with p show "(take 79 (c_str (fst kv)), stored (snd kv)) = id kv"
      by (cases kv) (simp add: plain_char_not_NUL)
  qed
  then show ?case by simp
qed (simp_all add: plain_char_not_NUL)

lemma repr_record_container: "repr d (RecData r) t \<Longrightarrow> is_container t"
  by (erule repr.cases) (simp_all add: is_container_def)

text \<open>The text of a printable container of at most \<open>MAX_DEPTH - 1\<close> levels, written as a
  document, is accepted by the tokenizer, with the events of the container.\<close>

lemma printed_tokens:
  assumes "printable t" and "is_container t" and "int (depth t) < MAX_DEPTH"
  shows "token_events json_tokenizer sg (render t 0 0 1) = Some (events t)"
proof -
  from assms(2) have st: "GO = VA \<or> GO = AR \<or> GO = GO \<and> is_container t" by simp
  from assms(3) have room: "int (length ([] :: jmode list)) + int (depth t) \<le> MAX_DEPTH - 1"
    by simp
  from runs_value [OF assms(1) st room, of True 0 1]
  obtain evs s' where
    r: "runs \<lparr>jp_state = GO, jp_modes = [], jp_depth = MAX_DEPTH - 1, jp_comments = True\<rparr>
          (render t 0 0 1) evs
          \<lparr>jp_state = s', jp_modes = [], jp_depth = MAX_DEPTH - 1, jp_comments = True\<rparr>"
    and e: "evs @ pending s' = events t" and s': "s' = OK"
    by auto
  from e s' have "evs = events t" by simp
  with runs_tokenize [OF r seven_bit_render [OF assms(1)], of sg] s' show ?thesis
    by (simp add: token_events_def json_tokenizer_def json_new_def json_done_def)
qed

text \<open>The text of a printable container of \<open>MAX_DEPTH\<close> levels or more is rejected by
  the tokenizer.\<close>

lemma printed_rejected:
  assumes "printable t" and "is_container t" and "MAX_DEPTH \<le> int (depth t)"
  shows "tokenize json_tokenizer sg (new_parser json_tokenizer (MAX_DEPTH - 1) True)
           (render t 0 0 1) = None"
proof -
  from assms(2) have st: "GO = VA \<or> GO = AR \<or> GO = GO \<and> is_container t" by simp
  have d0: "0 \<le> MAX_DEPTH - 1" by (simp add: MAX_DEPTH_def)
  have room: "int (length ([] :: jmode list)) \<le> MAX_DEPTH - 1" by (simp add: MAX_DEPTH_def)
  from assms(3) have deep: "MAX_DEPTH - 1 < int (length ([] :: jmode list)) + int (depth t)"
    by simp
  from rejected_value [OF assms(1) st d0 room deep, of True 0 1 "[]"]
  have "tokenize json_tokenizer False
      \<lparr>jp_state = GO, jp_modes = [], jp_depth = MAX_DEPTH - 1, jp_comments = True\<rparr>
      (render t 0 0 1) = None"
    by simp
  with tokenize_seven_bit [OF seven_bit_render [OF assms(1)], of json_tokenizer sg] show ?thesis
    by (simp add: json_tokenizer_def json_new_def)
qed

lemma run_json_parser_quiet:
  "fst (run_json_parser tok env d buf cb p doc) = 0
     \<Longrightarrow> fst (snd (run_json_parser tok env d buf cb p doc)) = []"
proof (cases "feed tok cb (char_signed env) (new_parser tok (MAX_DEPTH - 1) True) (setup_context env d p doc) 0 buf")
  case (fields jc ctx' count)
  assume "fst (run_json_parser tok env d buf cb p doc) = 0"
  with fields show ?thesis
    by (cases jc; cases "parser_done tok (the jc)") (simp_all add: run_json_parser_def)
qed

text \<open>
  Where nothing needs escaping, the round trip holds. Let the record \<open>doc\<close> be a
  document of the store that decodes to the JSON value \<open>t\<close>, where \<open>t\<close> has no float,
  its strings and keys are ASCII without double quote, backslash and control characters,
  its keys have at most 79 characters, and it nests fewer than \<open>MAX_DEPTH\<close> containers.
  Then \<open>wg_print_json_document\<close> writes the text of \<open>t\<close> and no diagnostic, and when
  neither the store nor \<open>malloc\<close> refuses a request, \<open>wg_parse_json_document\<close> answers 0
  for that text and leaves a new document record that decodes to the same value \<open>t\<close>.
  The first document is still in the store, unchanged.
\<close>

lemma print_parse_round_trip:
  assumes "repr d (RecData doc) t" and "is_schema_document d doc" and "printable t"
    and "int (depth t) < MAX_DEPTH" and "refusals d = []" and "malloc_answers env = []"
    and "2 * depth t \<le> n"
  shows "wg_print_json_document wg_snprint_value n d [] doc = Some (render t 0 0 1, []) \<and>
    (\<exists>d' doc'. wg_parse_json_document json_tokenizer env d (render t 0 0 1)
                 = (0, [], d', Some doc') \<and>
       extends d d' \<and> length (records d) \<le> doc' \<and> is_schema_document d' doc' \<and>
       repr d' (RecData doc') t \<and> repr d' (RecData doc) t)"
proof
  from print_repr(1) [OF assms(1)] assms(3,7)
  have "pretty_print_json wg_snprint_value n d [] doc 0 0 1 = Some (0, [] @ render t 0 0 1, [])"
    by blast
  with assms(2) show "wg_print_json_document wg_snprint_value n d [] doc = Some (render t 0 0 1, [])"
    by (simp add: wg_print_json_document_def)
next
  let ?buf = "render t 0 0 1"
  let ?c = "setup_context env d False None"
  from assms(1) have ic: "is_container t" by (rule repr_record_container)
  have te: "token_events json_tokenizer (char_signed env) ?buf = Some (events t)"
    by (rule printed_tokens [OF assms(3) ic assms(4)])
  have calm: "calm ?c" using assms(5,6) by (simp add: calm_def setup_context_def)
  have sp: "- 1 \<le> stack_ptr ?c" by (simp add: setup_context_def)
  have dp: "stack_ptr ?c + int (depth t) < MAX_DEPTH" using assms(4) by (simp add: setup_context_def)
  from accepted [OF calm sp _ dp] ic
  obtain ctx' where cb: "call_back parse_json_cb ?c (events t) = (True, ctx')" by blast
  let ?run = "run_json_parser json_tokenizer env d ?buf parse_json_cb False None"
  from run_json_parser_events [OF te, of d parse_json_cb False None] cb
  have code: "fst ?run = 0" by simp
  then have err: "fst (snd ?run) = []" by (rule run_json_parser_quiet)
  obtain d' doc0 where run: "?run = (0, [], d', doc0)"
    using code err by (cases ?run) auto
  from document_parsed [OF te ic run]
  obtain r where ex: "extends d d'" and r: "doc0 = Some r" "length (records d) \<le> r"
    "r < length (records d')" "meta_doc (records d' ! r)" "repr d' (RecData r) (stored t)"
    by blast
  from r(5) assms(3) have rr: "repr d' (RecData r) t" by (simp add: stored_printable)
  from repr_extends(1) [OF assms(1) ex] have ro: "repr d' (RecData doc) t" .
  from run r(1) have "wg_parse_json_document json_tokenizer env d ?buf = (0, [], d', Some r)"
    by (simp add: wg_parse_json_document_def)
  with ex r(2,3,4) rr ro
  show "\<exists>d' doc'. wg_parse_json_document json_tokenizer env d ?buf = (0, [], d', Some doc') \<and>
       extends d d' \<and> length (records d) \<le> doc' \<and> is_schema_document d' doc' \<and>
       repr d' (RecData doc') t \<and> repr d' (RecData doc) t"
    by (intro exI [of _ d'] exI [of _ r]) (simp add: is_schema_document_def)
qed

lemma print_parse_round_trip_example:
  "repr sample_db (RecData 3) (JObj [(''a'', JInt 1), (''b'', JArr [JInt 2, JInt 3])]) \<and>
   is_schema_document sample_db 3 \<and>
   printable (JObj [(''a'', JInt 1), (''b'', JArr [JInt 2, JInt 3])]) \<and>
   int (depth (JObj [(''a'', JInt 1), (''b'', JArr [JInt 2, JInt 3])])) < MAX_DEPTH \<and>
   refusals sample_db = [] \<and> malloc_answers plain_env = [] \<and>
   2 * depth (JObj [(''a'', JInt 1), (''b'', JArr [JInt 2, JInt 3])]) \<le> 4 \<and>
   wg_print_json_document wg_snprint_value 4 sample_db [] 3
     = Some (''{'' @ [CHR 0x0A] @ ''  '' @ quoted ''a'' @ '': 1'' @ [CHR 0x0A]
          @ ''  ,'' @ quoted ''b'' @ '': [2,3]'' @ [CHR 0x0A] @ ''}'' @ [CHR 0x0A], []) \<and>
   (\<exists>d' doc'. wg_parse_json_document json_tokenizer plain_env sample_db
         (''{'' @ [CHR 0x0A] @ ''  '' @ quoted ''a'' @ '': 1'' @ [CHR 0x0A]
          @ ''  ,'' @ quoted ''b'' @ '': [2,3]'' @ [CHR 0x0A] @ ''}'' @ [CHR 0x0A])
       = (0, [], d', Some doc') \<and>
      extends sample_db d' \<and> 4 \<le> doc' \<and> is_schema_document d' doc' \<and>
      repr d' (RecData doc') (JObj [(''a'', JInt 1), (''b'', JArr [JInt 2, JInt 3])]) \<and>
      repr d' (RecData 3) (JObj [(''a'', JInt 1), (''b'', JArr [JInt 2, JInt 3])]))"
proof -
  let ?t = "JObj [(''a'', JInt 1), (''b'', JArr [JInt 2, JInt 3])]"
  let ?text = "''{'' @ [CHR 0x0A] @ ''  '' @ quoted ''a'' @ '': 1'' @ [CHR 0x0A]
          @ ''  ,'' @ quoted ''b'' @ '': [2,3]'' @ [CHR 0x0A] @ ''}'' @ [CHR 0x0A]"
  have recs: "length (records sample_db) = 4"
    "records sample_db ! 0 = \<lparr>meta_array = False, meta_object = False, meta_doc = False,
        meta_param = False, rfields = [StrData ''a'', IntData 1]\<rparr>"
    "records sample_db ! 1 = \<lparr>meta_array = True, meta_object = False, meta_doc = False,
        meta_param = False, rfields = [IntData 2, IntData 3]\<rparr>"
    "records sample_db ! 2 = \<lparr>meta_array = False, meta_object = False, meta_doc = False,
        meta_param = False, rfields = [StrData ''b'', RecData 1]\<rparr>"
    "records sample_db ! 3 = \<lparr>meta_array = False, meta_object = True, meta_doc = True,
        meta_param = False, rfields = [RecData 0, RecData 2]\<rparr>"
    by (simp_all add: sample_db_def numeral_2_eq_2 numeral_3_eq_3)
  have a: "repr_pair sample_db (RecData 0) (''a'', JInt 1)"
    by (rule repr_kv [where g = "IntData 1"]) (simp_all add: recs repr_int)
  have arr: "repr sample_db (RecData 1) (JArr [JInt 2, JInt 3])"
    by (rule repr_arr) (simp_all add: recs recs(3) [unfolded One_nat_def] repr_int)
  have b: "repr_pair sample_db (RecData 2) (''b'', JArr [JInt 2, JInt 3])"
    by (rule repr_kv [where g = "RecData 1"]) (simp_all add: recs arr [unfolded One_nat_def])
  have r: "repr sample_db (RecData 3) ?t"
    by (rule repr_obj) (simp_all add: recs a b)
  have doc: "is_schema_document sample_db 3"
    by (simp add: is_schema_document_def recs)
  have p: "printable ?t"
    by (simp add: plain_char_def)
  have dp: "int (depth ?t) < MAX_DEPTH"
    by (simp add: MAX_DEPTH_def)
  have rf: "refusals sample_db = []"
    by (simp add: sample_db_def)
  have ma: "malloc_answers plain_env = []"
    by (simp add: plain_env_def)
  have n: "2 * depth ?t \<le> 4"
    by simp
  have tx: "render ?t 0 0 1 = ?text"
    by (simp add: OUT_INDENT_def comma_text_def newline_text_def quoted_def dec_int_def
        digit_char_def)
  from print_parse_round_trip [OF r doc p dp rf ma n]
  have "wg_print_json_document wg_snprint_value 4 sample_db [] 3 = Some (?text, []) \<and>
    (\<exists>d' doc'. wg_parse_json_document json_tokenizer plain_env sample_db ?text
                 = (0, [], d', Some doc') \<and>
       extends sample_db d' \<and> length (records sample_db) \<le> doc' \<and>
       is_schema_document d' doc' \<and> repr d' (RecData doc') ?t \<and> repr d' (RecData 3) ?t)"
    unfolding tx .
  then have c: "wg_print_json_document wg_snprint_value 4 sample_db [] 3 = Some (?text, []) \<and>
    (\<exists>d' doc'. wg_parse_json_document json_tokenizer plain_env sample_db ?text
                 = (0, [], d', Some doc') \<and>
       extends sample_db d' \<and> 4 \<le> doc' \<and>
       is_schema_document d' doc' \<and> repr d' (RecData doc') ?t \<and> repr d' (RecData 3) ?t)"
    unfolding recs(1) .
  show ?thesis
    by (intro conjI) (rule r doc p dp rf ma n c [THEN conjunct1] c [THEN conjunct2])+
qed

section \<open>The depth boundary\<close>

lemma feed_frame:
  assumes "- 1 \<le> stack_ptr ctx" and "stack_ptr ctx < MAX_DEPTH"
  shows "- 1 \<le> stack_ptr (fst (snd (feed tok parse_json_cb sg jc ctx n buf))) \<and>
         stack_ptr (fst (snd (feed tok parse_json_cb sg jc ctx n buf))) \<le> MAX_DEPTH \<and>
         (fst (feed tok parse_json_cb sg jc ctx n buf) \<noteq> None
            \<longrightarrow> stack_ptr (fst (snd (feed tok parse_json_cb sg jc ctx n buf))) < MAX_DEPTH) \<and>
         outside_kept ctx (fst (snd (feed tok parse_json_cb sg jc ctx n buf)))"
  using assms
proof (induction buf arbitrary: jc ctx n)
  case Nil
  then show ?case by (simp add: outside_kept_refl)
next
  case (Cons c cs)
  show ?case
  proof (cases "next_char_of sg c = 0")
    case True
    with Cons.prems show ?thesis by (simp add: outside_kept_refl)
  next
    case False
    obtain evs r where pc: "parser_char tok jc (next_char_of sg c) = (evs, r)"
      by (cases "parser_char tok jc (next_char_of sg c)")
    obtain ok c1 where cb: "call_back parse_json_cb ctx evs = (ok, c1)"
      by (cases "call_back parse_json_cb ctx evs")
    from call_back_frame [OF Cons.prems, of evs] cb
    have f: "- 1 \<le> stack_ptr c1" "stack_ptr c1 \<le> MAX_DEPTH" "ok \<longrightarrow> stack_ptr c1 < MAX_DEPTH"
      "outside_kept ctx c1"
      by simp_all
    show ?thesis
    proof (cases "ok \<and> r \<noteq> None")
      case True
      then obtain jc' where r: "r = Some jc'" and ok: ok by auto
      from f ok have p: "- 1 \<le> stack_ptr c1" "stack_ptr c1 < MAX_DEPTH" by simp_all
      have "feed tok parse_json_cb sg jc ctx n (c # cs) = feed tok parse_json_cb sg jc' c1 (n + 1) cs"
        using False pc cb r ok by (simp add: JSON_parser_char_def)
      with Cons.IH [OF p, of jc' "n + 1"] f(4) show ?thesis
        using outside_kept_trans [of ctx c1 "fst (snd (feed tok parse_json_cb sg jc' c1 (n + 1) cs))"]
        by simp
    next
      case False
      then have "feed tok parse_json_cb sg jc ctx n (c # cs) = (None, c1, n)"
        using \<open>next_char_of sg c \<noteq> 0\<close> pc cb by (cases ok; cases r) (simp_all add: JSON_parser_char_def)
      with f show ?thesis by simp
    qed
  qed
qed

lemma run_json_parser_rejected:
  assumes "tokenize tok (char_signed env) (new_parser tok (MAX_DEPTH - 1) True) buf = None"
  shows "\<exists>n d' doc'. run_json_parser tok env d buf cb p doc
     = (- 2, [snd (show_json_error_byte ''JSON parsing failed'' n)], d', doc')"
proof (cases "feed tok cb (char_signed env) (new_parser tok (MAX_DEPTH - 1) True) (setup_context env d p doc) 0 buf")
  case (fields r ctx' count)
  with feed_rejected [OF assms, of cb "setup_context env d p doc" 0] have "r = None" by simp
  with fields have "run_json_parser tok env d buf cb p doc
     = (- 2, [snd (show_json_error_byte ''JSON parsing failed'' count)], db ctx', document ctx')"
    by (simp add: run_json_parser_def)
  then show ?thesis by blast
qed

lemma nested_facts:
  "printable (nested n)" "is_container (nested n)" "depth (nested n) = Suc n"
  by (induction n) (simp_all add: is_container_def)

lemma indexed_concat_one: "indexed_concat g i [x] = g i x"
  by simp

lemma render_nested:
  "render (nested n) indent 0 nl
     = replicate (Suc n) (CHR ''['') @ replicate (Suc n) (CHR '']'') @ newline_text nl"
proof (induction n arbitrary: nl)
  case 0
  show ?case by (simp add: comma_text_def)
next
  case (Suc n)
  have "render (nested (Suc n)) indent 0 nl
      = ''['' @ render (nested n) indent 0 0 @ '']'' @ newline_text nl"
    by (simp add: comma_text_def)
  also have "\<dots> = ''['' @ (replicate (Suc n) (CHR ''['') @ replicate (Suc n) (CHR '']''))
      @ '']'' @ newline_text nl"
    unfolding Suc.IH by (simp add: newline_text_def)
  also have "\<dots> = replicate (Suc (Suc n)) (CHR ''['') @ replicate (Suc (Suc n)) (CHR '']'')
      @ newline_text nl"
    by (simp add: replicate_app_Cons_same)
  finally show ?case .
qed

text \<open>
  C5. \<open>push\<close> fails exactly when the incremented \<open>stack_ptr\<close> reaches \<open>MAX_DEPTH\<close>, and
  then it writes nothing to the stack. Whatever the tokenizer and the buffer, the context
  that the loop of \<open>run_json_parser\<close> leaves has its \<open>stack_ptr\<close> between -1 and
  \<open>MAX_DEPTH\<close>, below \<open>MAX_DEPTH\<close> unless a byte was rejected (so that at most \<open>MAX_DEPTH\<close>
  frames are open), and nothing outside of the \<open>MAX_DEPTH\<close> entries of the stack is
  written.
  With the tokenizer configured as \<open>run_json_parser\<close> does (\<open>config.depth = MAX_DEPTH - 1\<close>),
  the text of a printable value \<open>v\<close> that nests \<open>MAX_DEPTH - 1\<close> containers, or fewer, is
  parsed with the result 0 and no diagnostic when nothing is refused; the text of one that nests
  \<open>MAX_DEPTH\<close> containers, or more, fails with -2 and the diagnostic of a rejected byte.
\<close>

theorem depth_boundary:
  "fst (push ctx t) = (stack_ptr ctx + 1 < MAX_DEPTH) \<and>
   (\<not> fst (push ctx t) \<longrightarrow> stack (snd (push ctx t)) = stack ctx) \<and>
   - 1 \<le> stack_ptr (fst (snd (feed tok parse_json_cb sg jc (setup_context env d p doc) n buf))) \<and>
   stack_ptr (fst (snd (feed tok parse_json_cb sg jc (setup_context env d p doc) n buf)))
     \<le> MAX_DEPTH \<and>
   (fst (feed tok parse_json_cb sg jc (setup_context env d p doc) n buf) \<noteq> None \<longrightarrow>
      stack_ptr (fst (snd (feed tok parse_json_cb sg jc (setup_context env d p doc) n buf)))
        < MAX_DEPTH) \<and>
   outside_kept (setup_context env d p doc)
     (fst (snd (feed tok parse_json_cb sg jc (setup_context env d p doc) n buf))) \<and>
   (printable v \<and> is_container v \<and> int (depth v) \<le> MAX_DEPTH - 1 \<and>
    refusals d = [] \<and> malloc_answers env = [] \<longrightarrow>
      fst (wg_parse_json_document json_tokenizer env d (render v 0 0 1)) = 0 \<and>
      fst (snd (wg_parse_json_document json_tokenizer env d (render v 0 0 1))) = []) \<and>
   (printable v \<and> is_container v \<and> MAX_DEPTH \<le> int (depth v) \<longrightarrow>
      (\<exists>n d' doc'. wg_parse_json_document json_tokenizer env d (render v 0 0 1)
         = (- 2, [snd (show_json_error_byte ''JSON parsing failed'' n)], d', doc')))"
proof (intro conjI impI)
  show "fst (push ctx t) = (stack_ptr ctx + 1 < MAX_DEPTH)"
    by (simp add: push_result)
  show "stack (snd (push ctx t)) = stack ctx" if "\<not> fst (push ctx t)"
    using that by (simp add: push_result split: if_splits)
next
  have p: "- 1 \<le> stack_ptr (setup_context env d p doc)"
    "stack_ptr (setup_context env d p doc) < MAX_DEPTH"
    by (simp_all add: setup_context_def MAX_DEPTH_def)
  note f = feed_frame [OF p, of tok sg jc n buf]
  from f show "- 1 \<le> stack_ptr (fst (snd (feed tok parse_json_cb sg jc (setup_context env d p doc) n buf)))"
    by simp
  from f show "stack_ptr (fst (snd (feed tok parse_json_cb sg jc (setup_context env d p doc) n buf)))
     \<le> MAX_DEPTH"
    by simp
  from f show "outside_kept (setup_context env d p doc)
     (fst (snd (feed tok parse_json_cb sg jc (setup_context env d p doc) n buf)))"
    by simp
  from f show "stack_ptr (fst (snd (feed tok parse_json_cb sg jc (setup_context env d p doc) n buf)))
        < MAX_DEPTH"
    if "fst (feed tok parse_json_cb sg jc (setup_context env d p doc) n buf) \<noteq> None"
    using that by simp
next
  assume a: "printable v \<and> is_container v \<and> int (depth v) \<le> MAX_DEPTH - 1 \<and>
    refusals d = [] \<and> malloc_answers env = []"
  let ?c = "setup_context env d False None"
  let ?run = "run_json_parser json_tokenizer env d (render v 0 0 1) parse_json_cb False None"
  from a have dv: "int (depth v) < MAX_DEPTH" by simp
  from a have te: "token_events json_tokenizer (char_signed env) (render v 0 0 1) = Some (events v)"
    by (intro printed_tokens dv) simp_all
  have calm: "calm ?c" using a by (simp add: calm_def setup_context_def)
  have sp: "- 1 \<le> stack_ptr ?c" by (simp add: setup_context_def)
  have dp: "stack_ptr ?c + int (depth v) < MAX_DEPTH" using dv by (simp add: setup_context_def)
  from accepted [OF calm sp _ dp] a
  obtain ctx' where cb: "call_back parse_json_cb ?c (events v) = (True, ctx')" by blast
  from run_json_parser_events [OF te, of d parse_json_cb False None] cb
  have code: "fst ?run = 0" by simp
  then have err: "fst (snd ?run) = []" by (rule run_json_parser_quiet)
  from code show "fst (wg_parse_json_document json_tokenizer env d (render v 0 0 1)) = 0"
    by (simp add: wg_parse_json_document_def)
  from err show "fst (snd (wg_parse_json_document json_tokenizer env d (render v 0 0 1))) = []"
    by (simp add: wg_parse_json_document_def)
next
  assume a: "printable v \<and> is_container v \<and> MAX_DEPTH \<le> int (depth v)"
  then have "tokenize json_tokenizer (char_signed env)
      (new_parser json_tokenizer (MAX_DEPTH - 1) True) (render v 0 0 1) = None"
    by (intro printed_rejected) simp_all
  from run_json_parser_rejected [OF this, of d parse_json_cb False None]
  show "\<exists>n d' doc'. wg_parse_json_document json_tokenizer env d (render v 0 0 1)
         = (- 2, [snd (show_json_error_byte ''JSON parsing failed'' n)], d', doc')"
    by (simp add: wg_parse_json_document_def)
qed

theorem depth_boundary_witness:
  "\<not> fst (push (setup_context plain_env empty_db False None\<lparr>stack_ptr := 98\<rparr>) ARRAY) \<and>
   stack (snd (push (setup_context plain_env empty_db False None\<lparr>stack_ptr := 98\<rparr>) ARRAY))
     = stack (setup_context plain_env empty_db False None\<lparr>stack_ptr := 98\<rparr>) \<and>
   fst (push (setup_context plain_env empty_db False None\<lparr>stack_ptr := 97\<rparr>) ARRAY) \<and>
   MAX_DEPTH = 99 \<and>
   fst (wg_parse_json_document json_tokenizer plain_env empty_db
          (replicate 98 (CHR ''['') @ replicate 98 (CHR '']'') @ [CHR 0x0A])) = 0 \<and>
   (\<exists>n d' doc'. wg_parse_json_document json_tokenizer plain_env empty_db
          (replicate 99 (CHR ''['') @ replicate 99 (CHR '']'') @ [CHR 0x0A])
      = (- 2, [snd (show_json_error_byte ''JSON parsing failed'' n)], d', doc'))"
proof -
  let ?c = "setup_context plain_env empty_db False None"
  note a = depth_boundary [of "?c\<lparr>stack_ptr := 98\<rparr>" ARRAY json_tokenizer True
      "json_new 98 True" plain_env empty_db False None 0 "[]" "nested 97"]
  note b = depth_boundary [of "?c\<lparr>stack_ptr := 97\<rparr>" ARRAY json_tokenizer True
      "json_new 98 True" plain_env empty_db False None 0 "[]" "nested 98"]
  have t97: "render (nested 97) 0 0 1 = replicate 98 (CHR ''['') @ replicate 98 (CHR '']'') @ [CHR 0x0A]"
    by (simp add: render_nested newline_text_def)
  have t98: "render (nested 98) 0 0 1 = replicate 99 (CHR ''['') @ replicate 99 (CHR '']'') @ [CHR 0x0A]"
    by (simp add: render_nested newline_text_def)
  have h97: "printable (nested 97) \<and> is_container (nested 97) \<and>
      int (depth (nested 97)) \<le> MAX_DEPTH - 1 \<and> refusals empty_db = [] \<and>
      malloc_answers plain_env = []"
    by (simp add: nested_facts MAX_DEPTH_def empty_db_def plain_env_def)
  have h98: "printable (nested 98) \<and> is_container (nested 98) \<and> MAX_DEPTH \<le> int (depth (nested 98))"
    by (simp add: nested_facts MAX_DEPTH_def)
  from a have a1: "\<not> fst (push (?c\<lparr>stack_ptr := 98\<rparr>) ARRAY)"
    and a2: "stack (snd (push (?c\<lparr>stack_ptr := 98\<rparr>) ARRAY)) = stack (?c\<lparr>stack_ptr := 98\<rparr>)"
    by (simp_all add: MAX_DEPTH_def)
  from b have b1: "fst (push (?c\<lparr>stack_ptr := 97\<rparr>) ARRAY)"
    by (simp add: MAX_DEPTH_def)
  from a h97
  have "fst (wg_parse_json_document json_tokenizer plain_env empty_db (render (nested 97) 0 0 1)) = 0"
    by blast
  then have c: "fst (wg_parse_json_document json_tokenizer plain_env empty_db
          (replicate 98 (CHR ''['') @ replicate 98 (CHR '']'') @ [CHR 0x0A])) = 0"
    unfolding t97 .
  from b h98 have "\<exists>n d' doc'. wg_parse_json_document json_tokenizer plain_env empty_db
          (render (nested 98) 0 0 1)
      = (- 2, [snd (show_json_error_byte ''JSON parsing failed'' n)], d', doc')"
    by blast
  then have e: "\<exists>n d' doc'. wg_parse_json_document json_tokenizer plain_env empty_db
          (replicate 99 (CHR ''['') @ replicate 99 (CHR '']'') @ [CHR 0x0A])
      = (- 2, [snd (show_json_error_byte ''JSON parsing failed'' n)], d', doc')"
    unfolding t98 .
  have m: "MAX_DEPTH = 99" by (simp add: MAX_DEPTH_def)
  show ?thesis
    by (intro conjI) (rule a1 a2 b1 m c e)+
qed

section \<open>A string with a double quote is printed unescaped\<close>

lemma c_str_literal_acb: "c_str (''a'' @ quoted '','' @ ''b'') = ''a'' @ quoted '','' @ ''b''"
  by (simp add: c_str_def NUL_def quoted_def)

text \<open>
  C7 fails where a string holds a double quote: the printer writes a string between
  double quotes as it is stored, without escaping. Here a JSON text is parsed into the
  empty store: an array of one string, the letter \<open>a\<close>, an escaped double quote, a comma,
  an escaped double quote and the letter \<open>b\<close>. The document is an array record of that
  one string of five characters. It is printed with the two double quotes as they are,
  and the printed text is parsed as an array of two strings, \<open>a\<close> and \<open>b\<close>: the second
  document has two fields where the first has one.
\<close>

theorem unescaped_string_breaks_round_trip:
  "wg_parse_json_document json_tokenizer plain_env empty_db
       (''['' @ quoted (''a'' @ [CHR 0x5C, CHR 0x22] @ '','' @ [CHR 0x5C, CHR 0x22] @ ''b'') @ '']'')
     = (0, [], \<lparr>records = [\<lparr>meta_array = True, meta_object = False, meta_doc = True,
          meta_param = False, rfields = [StrData (''a'' @ quoted '','' @ ''b'')]\<rparr>],
          refusals = []\<rparr>, Some 0) \<and>
   wg_print_json_document wg_snprint_value 2
       \<lparr>records = [\<lparr>meta_array = True, meta_object = False, meta_doc = True,
          meta_param = False, rfields = [StrData (''a'' @ quoted '','' @ ''b'')]\<rparr>],
          refusals = []\<rparr> [] 0
     = Some (''['' @ quoted ''a'' @ '','' @ quoted ''b'' @ '']'' @ [CHR 0x0A], []) \<and>
   wg_parse_json_document json_tokenizer plain_env
       \<lparr>records = [\<lparr>meta_array = True, meta_object = False, meta_doc = True,
          meta_param = False, rfields = [StrData (''a'' @ quoted '','' @ ''b'')]\<rparr>],
          refusals = []\<rparr>
       (''['' @ quoted ''a'' @ '','' @ quoted ''b'' @ '']'' @ [CHR 0x0A])
     = (0, [], \<lparr>records = [\<lparr>meta_array = True, meta_object = False, meta_doc = True,
          meta_param = False, rfields = [StrData (''a'' @ quoted '','' @ ''b'')]\<rparr>,
          \<lparr>meta_array = True, meta_object = False, meta_doc = True,
          meta_param = False, rfields = [StrData ''a'', StrData ''b'']\<rparr>],
          refusals = []\<rparr>, Some 1)"
proof (intro conjI)
  show "wg_parse_json_document json_tokenizer plain_env empty_db
       (''['' @ quoted (''a'' @ [CHR 0x5C, CHR 0x22] @ '','' @ [CHR 0x5C, CHR 0x22] @ ''b'') @ '']'')
     = (0, [], \<lparr>records = [\<lparr>meta_array = True, meta_object = False, meta_doc = True,
          meta_param = False, rfields = [StrData (''a'' @ quoted '','' @ ''b'')]\<rparr>],
          refusals = []\<rparr>, Some 0)"
    using c_str_literal_acb
    by (simp add: wg_parse_json_document_def run_json_parser_def quoted_def
        json_tokenizer_simps event_simps consumer_simps)
  show "wg_print_json_document wg_snprint_value 2
       \<lparr>records = [\<lparr>meta_array = True, meta_object = False, meta_doc = True,
          meta_param = False, rfields = [StrData (''a'' @ quoted '','' @ ''b'')]\<rparr>],
          refusals = []\<rparr> [] 0
     = Some (''['' @ quoted ''a'' @ '','' @ quoted ''b'' @ '']'' @ [CHR 0x0A], [])"
    by (simp add: wg_print_json_document_def is_schema_document_def is_schema_object_def
        is_schema_array_def numeral_2_eq_2 wg_get_record_len_def wg_get_field_def
        wg_get_encoded_type_def wg_decode_str_def comma_text_def newline_text_def quoted_def
        upto.simps)
  show "wg_parse_json_document json_tokenizer plain_env
       \<lparr>records = [\<lparr>meta_array = True, meta_object = False, meta_doc = True,
          meta_param = False, rfields = [StrData (''a'' @ quoted '','' @ ''b'')]\<rparr>],
          refusals = []\<rparr>
       (''['' @ quoted ''a'' @ '','' @ quoted ''b'' @ '']'' @ [CHR 0x0A])
     = (0, [], \<lparr>records = [\<lparr>meta_array = True, meta_object = False, meta_doc = True,
          meta_param = False, rfields = [StrData (''a'' @ quoted '','' @ ''b'')]\<rparr>,
          \<lparr>meta_array = True, meta_object = False, meta_doc = True,
          meta_param = False, rfields = [StrData ''a'', StrData ''b'']\<rparr>],
          refusals = []\<rparr>, Some 1)"
    using c_str_literal_a c_str_literal_b
    by (simp add: wg_parse_json_document_def run_json_parser_def quoted_def
        json_tokenizer_simps event_simps consumer_simps numeral_2_eq_2)
qed

text \<open>The array of the one string \<open>a\<close>, double quote, \<open>b\<close> is printed as a text that the
  tokenizer rejects: parsing it again answers -2.\<close>

lemma c_str_literal_aqb: "c_str (''a'' @ [CHR 0x22] @ ''b'') = ''a'' @ [CHR 0x22] @ ''b''"
  by (simp add: c_str_def NUL_def)

lemma unescaped_quote_is_rejected:
  "wg_parse_json_document json_tokenizer plain_env empty_db
       (''['' @ quoted (''a'' @ [CHR 0x5C, CHR 0x22] @ ''b'') @ '']'')
     = (0, [], \<lparr>records = [\<lparr>meta_array = True, meta_object = False, meta_doc = True,
          meta_param = False, rfields = [StrData (''a'' @ [CHR 0x22] @ ''b'')]\<rparr>],
          refusals = []\<rparr>, Some 0) \<and>
   wg_print_json_document wg_snprint_value 2
       \<lparr>records = [\<lparr>meta_array = True, meta_object = False, meta_doc = True,
          meta_param = False, rfields = [StrData (''a'' @ [CHR 0x22] @ ''b'')]\<rparr>],
          refusals = []\<rparr> [] 0
     = Some (''['' @ quoted (''a'' @ [CHR 0x22] @ ''b'') @ '']'' @ [CHR 0x0A], []) \<and>
   fst (wg_parse_json_document json_tokenizer plain_env
       \<lparr>records = [\<lparr>meta_array = True, meta_object = False, meta_doc = True,
          meta_param = False, rfields = [StrData (''a'' @ [CHR 0x22] @ ''b'')]\<rparr>],
          refusals = []\<rparr>
       (''['' @ quoted (''a'' @ [CHR 0x22] @ ''b'') @ '']'' @ [CHR 0x0A])) = - 2"
proof (intro conjI)
  show "wg_parse_json_document json_tokenizer plain_env empty_db
       (''['' @ quoted (''a'' @ [CHR 0x5C, CHR 0x22] @ ''b'') @ '']'')
     = (0, [], \<lparr>records = [\<lparr>meta_array = True, meta_object = False, meta_doc = True,
          meta_param = False, rfields = [StrData (''a'' @ [CHR 0x22] @ ''b'')]\<rparr>],
          refusals = []\<rparr>, Some 0)"
    using c_str_literal_aqb
    by (simp add: wg_parse_json_document_def run_json_parser_def quoted_def
        json_tokenizer_simps event_simps consumer_simps)
  show "wg_print_json_document wg_snprint_value 2
       \<lparr>records = [\<lparr>meta_array = True, meta_object = False, meta_doc = True,
          meta_param = False, rfields = [StrData (''a'' @ [CHR 0x22] @ ''b'')]\<rparr>],
          refusals = []\<rparr> [] 0
     = Some (''['' @ quoted (''a'' @ [CHR 0x22] @ ''b'') @ '']'' @ [CHR 0x0A], [])"
    by (simp add: wg_print_json_document_def is_schema_document_def is_schema_object_def
        is_schema_array_def numeral_2_eq_2 wg_get_record_len_def wg_get_field_def
        wg_get_encoded_type_def wg_decode_str_def comma_text_def newline_text_def quoted_def
        upto.simps)
  show "fst (wg_parse_json_document json_tokenizer plain_env
       \<lparr>records = [\<lparr>meta_array = True, meta_object = False, meta_doc = True,
          meta_param = False, rfields = [StrData (''a'' @ [CHR 0x22] @ ''b'')]\<rparr>],
          refusals = []\<rparr>
       (''['' @ quoted (''a'' @ [CHR 0x22] @ ''b'') @ '']'' @ [CHR 0x0A])) = - 2"
    using c_str_literal_a
    by (simp add: wg_parse_json_document_def run_json_parser_def quoted_def
        json_tokenizer_simps event_simps consumer_simps show_json_error_byte_def)
qed

end
